theory Spec2Isabelle
  imports Complex_Main "HOL-Library.Monad_Syntax"
begin

section \<open>Tensors, parameters and indexing\<close>

text \<open>
  The linear-chain CRF of \<^verbatim>\<open>pytorch_partial_crf\<close> works on batches of right-padded
  sequences. A tensor is a nested list, outermost axis first as the caller supplies it:
  emissions are \<open>batch \<times> position \<times> tag\<close>, the mask and the gold tags are
  \<open>batch \<times> position\<close>. Scores are real numbers (the arithmetic of the tensors is taken
  exactly), tags are Python integers, a mask entry is a truth value whose \<^verbatim>\<open>.float()\<close>
  is \<open>of_bool\<close>. Every tensor operation of the source acts on the rows of a batch
  independently, so each operation is given for one row (suffix \<open>_row\<close>) and lifted to
  the batch; an exception raised for one row aborts the whole call, which is the value
  \<open>None\<close>.
\<close>

type_synonym vec = "real list"
type_synonym mat = "real list list"

record crf =
  num_tags :: nat
  start_transitions :: vec
  end_transitions :: vec
  transitions :: mat

text \<open>
  The shapes the source relies on: \<^verbatim>\<open>view(1, num_tags)\<close> and the broadcasts raise
  unless the parameter sizes agree with the tag axis of the emissions.
\<close>

definition wf_crf :: "crf \<Rightarrow> bool" where
  "wf_crf P \<longleftrightarrow>
     0 < num_tags P \<and>
     length (start_transitions P) = num_tags P \<and>
     length (end_transitions P) = num_tags P \<and>
     length (transitions P) = num_tags P \<and>
     (\<forall>r \<in> set (transitions P). length r = num_tags P)"

definition wf_row :: "crf \<Rightarrow> mat \<Rightarrow> bool list \<Rightarrow> bool" where
  "wf_row P em msk \<longleftrightarrow>
     length msk = length em \<and> (\<forall>e \<in> set em. length e = num_tags P)"

text \<open>A mask whose valid positions are the first \<open>n\<close> ones, \<open>n\<close> at least one.\<close>

definition prefix_mask :: "bool list \<Rightarrow> nat \<Rightarrow> bool" where
  "prefix_mask msk n \<longleftrightarrow>
     0 < n \<and> n \<le> length msk \<and>
     msk = replicate n True @ replicate (length msk - n) False"

text \<open>\<^verbatim>\<open>mask.sum(0)\<close>: the number of valid positions of a row.\<close>

definition mask_sum :: "bool list \<Rightarrow> nat" where
  "mask_sum msk = length (filter (\<lambda>m. m) msk)"

text \<open>
  \<^verbatim>\<open>gather\<close> and \<^verbatim>\<open>index_select\<close> reject an index outside \<open>[0, size)\<close>; indexing a
  tensor with an index tensor (\<^verbatim>\<open>t[idx]\<close>) counts a negative index from the end.
\<close>

definition gather :: "'a list \<Rightarrow> int \<Rightarrow> 'a option" where
  "gather xs i = (if 0 \<le> i \<and> i < int (length xs) then Some (xs ! nat i) else None)"

definition index_select :: "'a list \<Rightarrow> int \<Rightarrow> 'a option" where
  "index_select xs i = (if 0 \<le> i \<and> i < int (length xs) then Some (xs ! nat i) else None)"

definition tensor_index :: "'a list \<Rightarrow> int \<Rightarrow> 'a option" where
  "tensor_index xs i =
     (let n = int (length xs)
      in if 0 \<le> i \<and> i < n then Some (xs ! nat i)
         else if - n \<le> i \<and> i < 0 then Some (xs ! nat (n + i))
         else None)"

text \<open>The list slice \<^verbatim>\<open>xs[:k]\<close> of Python, \<open>k\<close> possibly negative.\<close>

definition py_slice_to :: "'a list \<Rightarrow> int \<Rightarrow> 'a list" where
  "py_slice_to xs k =
     (if 0 \<le> k then take (nat k) xs else take (length xs - nat (- k)) xs)"

text \<open>
  Modelled from the spec: \<^verbatim>\<open>log_sum_exp\<close> of \<^verbatim>\<open>pytorch_partial_crf.utils\<close>, a module
  that is not part of the sources at hand. The stable reduction \<open>log (\<Sum> exp x)\<close> along
  one axis subtracts the maximum of the group before exponentiating and adds it back
  after the logarithm. The axis is a list here.
\<close>

definition log_sum_exp :: "vec \<Rightarrow> real" where
  "log_sum_exp xs = (let m = Max (set xs) in m + ln (\<Sum>x\<leftarrow>xs. exp (x - m)))"

text \<open>
  Modelled from the spec: \<^verbatim>\<open>create_possible_tag_masks\<close> of the same absent module, the
  candidate-mask builder. From a gold tag sequence it makes the allow-matrix
  \<open>position \<times> tag\<close> in which exactly the gold tag of a position is allowed.
\<close>

definition create_possible_tag_masks :: "nat \<Rightarrow> int list list \<Rightarrow> bool list list list" where
  "create_possible_tag_masks T tags =
     map (map (\<lambda>t. map (\<lambda>v. int v = t) [0..<T])) tags"

section \<open>The partition engine: \<^verbatim>\<open>CRF._denominator_score\<close>\<close>

text \<open>
  One turn of the loop body for one row: \<open>inner u v = alpha u + emissions_i v +
  transitions u v\<close>, reduced over \<open>u\<close>, and blended with the old \<open>alpha\<close> by the mask bit.
\<close>

definition forward_step :: "crf \<Rightarrow> vec \<Rightarrow> vec \<Rightarrow> bool \<Rightarrow> vec" where
  "forward_step P alpha e m =
     map (\<lambda>v. log_sum_exp (map (\<lambda>u. alpha ! u + e ! v + transitions P ! u ! v)
                                [0..<num_tags P]) * of_bool m
              + alpha ! v * (1 - of_bool m))
         [0..<num_tags P]"

definition start_alpha :: "crf \<Rightarrow> vec \<Rightarrow> vec" where
  "start_alpha P e0 = map (\<lambda>v. start_transitions P ! v + e0 ! v) [0..<num_tags P]"

definition forward_alpha :: "crf \<Rightarrow> mat \<Rightarrow> bool list \<Rightarrow> vec" where
  "forward_alpha P em msk =
     foldl (\<lambda>alpha i. forward_step P alpha (em ! i) (msk ! i))
           (start_alpha P (em ! 0)) [1..<length em]"

definition denominator_score_row :: "crf \<Rightarrow> mat \<Rightarrow> bool list \<Rightarrow> real option" where
  "denominator_score_row P em msk =
     (if em = [] then None
      else let alpha = forward_alpha P em msk;
               stops = map (\<lambda>v. alpha ! v + end_transitions P ! v) [0..<num_tags P]
           in Some (log_sum_exp stops))"

definition denominator_score :: "crf \<Rightarrow> mat list \<Rightarrow> bool list list \<Rightarrow> real list option" where
  "denominator_score P emissions msk =
     those (map (\<lambda>(em, m). denominator_score_row P em m) (zip emissions msk))"

section \<open>The gold scorer: \<^verbatim>\<open>CRF._numerator_score\<close>\<close>

definition numerator_step ::
  "crf \<Rightarrow> mat \<Rightarrow> int list \<Rightarrow> bool list \<Rightarrow> real option \<Rightarrow> nat \<Rightarrow> real option" where
  "numerator_step P em tags msk acc i =
     do {
       score \<leftarrow> acc;
       emissions_score \<leftarrow> gather (em ! i) (tags ! i);
       from_row \<leftarrow> tensor_index (transitions P) (tags ! i);
       transition_score \<leftarrow> tensor_index from_row (tags ! (i + 1));
       Some (score + (transition_score * of_bool (msk ! (i + 1))
                      + emissions_score * of_bool (msk ! i)))
     }"

definition numerator_score_row ::
  "crf \<Rightarrow> mat \<Rightarrow> int list \<Rightarrow> bool list \<Rightarrow> real option" where
  "numerator_score_row P em tags msk =
     (if em = [] then None
      else do {
        score0 \<leftarrow> index_select (start_transitions P) (tags ! 0);
        score \<leftarrow> foldl (numerator_step P em tags msk) (Some score0) [0..<length em - 1];
        last_tag \<leftarrow> gather tags (int (mask_sum msk) - 1);
        last_transition_score \<leftarrow> index_select (end_transitions P) last_tag;
        last_input_score \<leftarrow> gather (em ! (length em - 1)) last_tag;
        Some (score + last_transition_score
              + last_input_score * of_bool (msk ! (length em - 1)))
      })"

definition numerator_score ::
  "crf \<Rightarrow> mat list \<Rightarrow> int list list \<Rightarrow> bool list list \<Rightarrow> real list option" where
  "numerator_score P emissions tags msk =
     those (map (\<lambda>(em, t, m). numerator_score_row P em t m) (zip emissions (zip tags msk)))"

section \<open>Forward and backward passes: \<^verbatim>\<open>CRF._forward_algorithm\<close>\<close>

text \<open>
  The forward direction adds \<open>log_proba u + transitions u v + emissions_i v\<close> and reduces
  over \<open>u\<close>. The backward direction transposes the transition matrix and the emissions:
  \<open>inner u v = log_proba u + transitions v u + emissions_i u\<close>, reduced over \<open>u\<close>.
\<close>

definition alpha_step :: "crf \<Rightarrow> vec \<Rightarrow> vec \<Rightarrow> bool \<Rightarrow> vec" where
  "alpha_step P log_proba e m =
     map (\<lambda>v. log_sum_exp (map (\<lambda>u. log_proba ! u + transitions P ! u ! v + e ! v)
                                [0..<num_tags P]) * of_bool m
              + log_proba ! v * (1 - of_bool m))
         [0..<num_tags P]"

definition beta_step :: "crf \<Rightarrow> vec \<Rightarrow> vec \<Rightarrow> bool \<Rightarrow> vec" where
  "beta_step P log_proba e m =
     map (\<lambda>v. log_sum_exp (map (\<lambda>u. log_proba ! u + transitions P ! v ! u + e ! u)
                                [0..<num_tags P]) * of_bool m
              + log_proba ! v * (1 - of_bool m))
         [0..<num_tags P]"

definition forward_algorithm_row :: "crf \<Rightarrow> mat \<Rightarrow> bool list \<Rightarrow> bool \<Rightarrow> vec list option" where
  "forward_algorithm_row P em msk reverse_direction =
     (if reverse_direction then
        Some (rev (foldl (\<lambda>log_proba i.
                            log_proba @ [beta_step P (last log_proba) (em ! i) (msk ! i)])
                         [end_transitions P] (rev [1..<length em])))
      else if em = [] then None
      else
        Some (foldl (\<lambda>log_proba i.
                       log_proba @ [alpha_step P (last log_proba) (em ! i) (msk ! i)])
                    [map (\<lambda>v. em ! 0 ! v + start_transitions P ! v) [0..<num_tags P]]
                    [1..<length em]))"

section \<open>Marginals: \<^verbatim>\<open>CRF.marginal_probabilities\<close>\<close>

definition marginal_probabilities_row :: "crf \<Rightarrow> mat \<Rightarrow> bool list \<Rightarrow> vec list option" where
  "marginal_probabilities_row P em msk =
     do {
       alpha \<leftarrow> forward_algorithm_row P em msk False;
       beta \<leftarrow> forward_algorithm_row P em msk True;
       let z = log_sum_exp (map (\<lambda>v. alpha ! (length alpha - 1) ! v + end_transitions P ! v)
                                [0..<num_tags P]);
       Some (map (\<lambda>i. map (\<lambda>v. exp (alpha ! i ! v + beta ! i ! v - z)) [0..<num_tags P])
                 [0..<length alpha])
     }"

text \<open>The default mask of \<^verbatim>\<open>marginal_probabilities\<close> and \<^verbatim>\<open>viterbi_decode\<close>:
  all ones, of the batch size and sequence length of the emissions.\<close>

text \<open>The padded length, the second entry of \<^verbatim>\<open>emissions.shape\<close>.\<close>

definition sequence_length_of :: "'a list list \<Rightarrow> nat" where
  "sequence_length_of emissions = (case emissions of [] \<Rightarrow> 0 | em # _ \<Rightarrow> length em)"

definition ones_of_shape :: "mat list \<Rightarrow> bool list list" where
  "ones_of_shape emissions =
     replicate (length emissions) (replicate (sequence_length_of emissions) True)"

text \<open>The result is stacked along the time axis: \<open>position \<times> batch \<times> tag\<close>.\<close>

definition marginal_probabilities ::
  "crf \<Rightarrow> mat list \<Rightarrow> bool list list option \<Rightarrow> vec list list option" where
  "marginal_probabilities P emissions mask_opt =
     (let msk = (case mask_opt of None \<Rightarrow> ones_of_shape emissions | Some m \<Rightarrow> m)
      in map_option
           (\<lambda>rows. map (\<lambda>i. map (\<lambda>row. row ! i) rows) [0..<sequence_length_of emissions])
           (those (map (\<lambda>(em, m). marginal_probabilities_row P em m) (zip emissions msk))))"

section \<open>The decoder: \<^verbatim>\<open>CRF.viterbi_decode\<close>\<close>

text \<open>\<^verbatim>\<open>max(dim)\<close> returns the maximum and the position of its first occurrence.\<close>

definition argmax :: "vec \<Rightarrow> nat" where
  "argmax xs = length (takeWhile (\<lambda>x. x \<noteq> Max (set xs)) xs)"

definition viterbi_step :: "crf \<Rightarrow> vec \<Rightarrow> vec \<Rightarrow> vec \<times> nat list" where
  "viterbi_step P score e =
     (let next_score = (\<lambda>v. map (\<lambda>u. score ! u + transitions P ! u ! v + e ! v)
                                 [0..<num_tags P])
      in (map (\<lambda>v. Max (set (next_score v))) [0..<num_tags P],
          map (\<lambda>v. argmax (next_score v)) [0..<num_tags P]))"

definition viterbi_loop :: "crf \<Rightarrow> mat \<Rightarrow> bool list \<Rightarrow> vec \<times> nat list list" where
  "viterbi_loop P em msk =
     foldl (\<lambda>(score, history) i.
              let (next_score, indices) = viterbi_step P score (em ! i)
              in (if msk ! i then next_score else score, history @ [indices]))
           (map (\<lambda>v. start_transitions P ! v + em ! 0 ! v) [0..<num_tags P], [])
           [1..<length em]"

text \<open>The final score vector of a row, the end transitions added.\<close>

definition viterbi_score :: "crf \<Rightarrow> mat \<Rightarrow> bool list \<Rightarrow> vec" where
  "viterbi_score P em msk =
     map (\<lambda>v. fst (viterbi_loop P em msk) ! v + end_transitions P ! v) [0..<num_tags P]"

definition follow_history :: "nat list list \<Rightarrow> nat \<Rightarrow> nat list" where
  "follow_history hists best_last_tag =
     rev (foldl (\<lambda>best_tags hist. best_tags @ [hist ! last best_tags])
                [best_last_tag] (rev hists))"

definition viterbi_decode_row :: "crf \<Rightarrow> mat \<Rightarrow> bool list \<Rightarrow> nat list option" where
  "viterbi_decode_row P em msk =
     (if em = [] then None
      else let history = snd (viterbi_loop P em msk);
               seq_end = int (mask_sum msk) - 1;
               best_last_tag = argmax (viterbi_score P em msk)
           in Some (follow_history (py_slice_to history seq_end) best_last_tag))"

definition viterbi_decode ::
  "crf \<Rightarrow> mat list \<Rightarrow> bool list list option \<Rightarrow> nat list list option" where
  "viterbi_decode P emissions mask_opt =
     (let msk = (case mask_opt of None \<Rightarrow> ones_of_shape emissions | Some m \<Rightarrow> m)
      in those (map (\<lambda>(em, m). viterbi_decode_row P em m) (zip emissions msk)))"

section \<open>The loss: \<^verbatim>\<open>CRF.forward\<close>\<close>

definition ones_like :: "'a list list \<Rightarrow> bool list list" where
  "ones_like tags = map (map (\<lambda>_. True)) tags"

definition CRF_forward ::
  "crf \<Rightarrow> mat list \<Rightarrow> int list list \<Rightarrow> bool list list option \<Rightarrow> real option" where
  "CRF_forward P emissions tags mask_opt =
     (let msk = (case mask_opt of None \<Rightarrow> ones_like tags | Some m \<Rightarrow> m)
      in do {
        gold_score \<leftarrow> numerator_score P emissions tags msk;
        forward_score \<leftarrow> denominator_score P emissions msk;
        Some (\<Sum>(f, g)\<leftarrow>zip forward_score gold_score. f - g)
      })"

section \<open>Partial supervision: \<^verbatim>\<open>PartialCRF\<close>\<close>

text \<open>
  \<^verbatim>\<open>PartialCRF\<close> has the parameters of \<^verbatim>\<open>CRF\<close>, and its \<^verbatim>\<open>_denominator_score\<close>
  repeats the one of \<^verbatim>\<open>CRF\<close> statement by statement.
\<close>

definition IMPOSSIBLE_SCORE :: real where
  "IMPOSSIBLE_SCORE = - 10000000"

definition partial_denominator_score ::
  "crf \<Rightarrow> mat list \<Rightarrow> bool list list \<Rightarrow> real list option" where
  "partial_denominator_score = denominator_score"

text \<open>
  The candidate sets are a tensor of zeros and ones, \<open>batch \<times> position \<times> tag\<close>, read
  as truth values; \<^verbatim>\<open>x[(p == 0)] = IMPOSSIBLE_SCORE\<close> overwrites where the float of
  the entry is zero.
\<close>

definition partial_start_alpha :: "crf \<Rightarrow> vec \<Rightarrow> bool list \<Rightarrow> vec" where
  "partial_start_alpha P e0 first_possible_tag =
     map (\<lambda>v. if (of_bool (first_possible_tag ! v) :: real) = 0 then IMPOSSIBLE_SCORE
               else start_transitions P ! v + e0 ! v)
         [0..<num_tags P]"

definition restricted_emissions :: "crf \<Rightarrow> vec \<Rightarrow> bool list \<Rightarrow> vec" where
  "restricted_emissions P e next_possible_tags =
     map (\<lambda>v. if (of_bool (next_possible_tags ! v) :: real) = 0 then IMPOSSIBLE_SCORE
               else e ! v)
         [0..<num_tags P]"

definition restricted_transitions :: "crf \<Rightarrow> bool list \<Rightarrow> bool list \<Rightarrow> mat" where
  "restricted_transitions P current_possible_tags next_possible_tags =
     map (\<lambda>u. map (\<lambda>v. let x = transitions P ! u ! v
                                 * of_bool (current_possible_tags ! u)
                                 * of_bool (next_possible_tags ! v)
                        in if x = 0 then IMPOSSIBLE_SCORE else x)
                   [0..<num_tags P])
         [0..<num_tags P]"

definition partial_step ::
  "crf \<Rightarrow> vec \<Rightarrow> vec \<Rightarrow> bool list \<Rightarrow> bool list \<Rightarrow> bool \<Rightarrow> vec" where
  "partial_step P alpha e current_possible_tags next_possible_tags m =
     (let emissions_score = restricted_emissions P e next_possible_tags;
          transition_scores =
            restricted_transitions P current_possible_tags next_possible_tags
      in map (\<lambda>v. log_sum_exp (map (\<lambda>u. alpha ! u + emissions_score ! v
                                          + transition_scores ! u ! v)
                                     [0..<num_tags P]) * of_bool m
                   + alpha ! v * (1 - of_bool m))
             [0..<num_tags P])"

definition partial_alpha :: "crf \<Rightarrow> mat \<Rightarrow> bool list \<Rightarrow> bool list list \<Rightarrow> vec" where
  "partial_alpha P em msk possible_tags =
     foldl (\<lambda>alpha i. partial_step P alpha (em ! i) (possible_tags ! (i - 1))
                         (possible_tags ! i) (msk ! i))
           (partial_start_alpha P (em ! 0) (possible_tags ! 0)) [1..<length em]"

definition restricted_end :: "crf \<Rightarrow> bool list \<Rightarrow> vec" where
  "restricted_end P last_possible_tags =
     map (\<lambda>v. let x = end_transitions P ! v * of_bool (last_possible_tags ! v)
               in if x = 0 then IMPOSSIBLE_SCORE else x)
         [0..<num_tags P]"

text \<open>
  The candidate row that masks the end transitions of row \<open>b\<close> is read from the
  candidates flattened to \<open>(batch \<cdot> position) \<times> tag\<close>, at index
  \<open>last_tag_index + b \<cdot> sequence_length\<close>.
\<close>

definition last_possible_tags ::
  "bool list list list \<Rightarrow> bool list list \<Rightarrow> nat \<Rightarrow> nat \<Rightarrow> bool list option" where
  "last_possible_tags possible_tags msk sequence_length b =
     tensor_index (concat possible_tags)
       (int (mask_sum (msk ! b)) - 1 + int b * int sequence_length)"

definition partial_numerator_score_row ::
  "crf \<Rightarrow> mat \<Rightarrow> bool list \<Rightarrow> bool list list \<Rightarrow> bool list option \<Rightarrow> real option" where
  "partial_numerator_score_row P em msk possible_tags last_possible =
     (if em = [] then None
      else do {
        last_row \<leftarrow> last_possible;
        let alpha = partial_alpha P em msk possible_tags;
        let end_transitions = restricted_end P last_row;
        Some (log_sum_exp (map (\<lambda>v. alpha ! v + end_transitions ! v) [0..<num_tags P]))
      })"

text \<open>
  What a call does besides returning: the emissions tensor of the caller as it is after
  the call, and the tensors written to standard output.

  \<^verbatim>\<open>emissions.transpose(0, 1).contiguous()\<close> copies unless the transposed tensor is
  contiguous already, which for a densely laid out \<open>batch \<times> position \<times> tag\<close> tensor is
  the case exactly when the batch size or the sequence length is one; then the
  overwriting of \<^verbatim>\<open>emissions[i]\<close> in the loop writes to the tensor of the caller.
\<close>

record 'a run =
  returned :: "'a option"
  emissions_after :: "mat list"
  printed :: "vec list list"

definition shares_storage :: "mat list \<Rightarrow> bool" where
  "shares_storage emissions \<longleftrightarrow>
     length emissions = 1 \<or> sequence_length_of emissions = 1"

definition overwrite_emissions :: "crf \<Rightarrow> mat \<Rightarrow> bool list list \<Rightarrow> mat" where
  "overwrite_emissions P em possible_tags =
     map (\<lambda>i. if i = 0 then em ! 0 else restricted_emissions P (em ! i) (possible_tags ! i))
         [0..<length em]"

definition partial_numerator_score ::
  "crf \<Rightarrow> mat list \<Rightarrow> int list list \<Rightarrow> bool list list \<Rightarrow> bool list list list
   \<Rightarrow> real list run" where
  "partial_numerator_score P emissions tags msk possible_tags =
     (let sequence_length = sequence_length_of emissions
      in if sequence_length = 0 then
           \<lparr>returned = None, emissions_after = emissions, printed = []\<rparr>
         else
           \<lparr>returned =
              those (map (\<lambda>b. partial_numerator_score_row P (emissions ! b) (msk ! b)
                                (possible_tags ! b)
                                (last_possible_tags possible_tags msk sequence_length b))
                         [0..<length emissions]),
            emissions_after =
              (if shares_storage emissions
               then map (\<lambda>b. overwrite_emissions P (emissions ! b) (possible_tags ! b))
                        [0..<length emissions]
               else emissions),
            printed =
              [map (\<lambda>b. partial_start_alpha P (emissions ! b ! 0) (possible_tags ! b ! 0))
                   [0..<length emissions]]\<rparr>)"

definition PartialCRF_forward ::
  "crf \<Rightarrow> mat list \<Rightarrow> int list list \<Rightarrow> bool list list option \<Rightarrow> real run" where
  "PartialCRF_forward P emissions tags mask_opt =
     (let msk = (case mask_opt of None \<Rightarrow> ones_like tags | Some m \<Rightarrow> m);
          possible_tags = create_possible_tag_masks (num_tags P) tags;
          num = partial_numerator_score P emissions tags msk possible_tags
      in \<lparr>returned =
            do {
              gold_score \<leftarrow> returned num;
              forward_score \<leftarrow> partial_denominator_score P (emissions_after num) msk;
              Some (\<Sum>(f, g)\<leftarrow>zip forward_score gold_score. f - g)
            },
          emissions_after = emissions_after num,
          printed = printed num\<rparr>)"

section \<open>Reference notions\<close>

text \<open>
  A batch of the shape the operations expect: one mask row per emissions row, all rows
  of the padded length \<open>L\<close>, one score per tag at every position.
\<close>

definition wf_batch :: "crf \<Rightarrow> mat list \<Rightarrow> bool list list \<Rightarrow> nat \<Rightarrow> bool" where
  "wf_batch P emissions msk L \<longleftrightarrow>
     length msk = length emissions \<and>
     (\<forall>b < length emissions. length (emissions ! b) = L \<and> wf_row P (emissions ! b) (msk ! b))"

text \<open>
  The score of one tag sequence \<open>s\<close> of a row, by the formula of the linear chain:
  start, one emission per position, one transition per adjacent pair, end.
\<close>

definition path_score :: "crf \<Rightarrow> mat \<Rightarrow> nat list \<Rightarrow> real" where
  "path_score P em s =
     start_transitions P ! (s ! 0)
     + (\<Sum>i\<leftarrow>[0..<length s]. em ! i ! (s ! i))
     + (\<Sum>i\<leftarrow>[0..<length s - 1]. transitions P ! (s ! i) ! (s ! (i + 1)))
     + end_transitions P ! (s ! (length s - 1))"

text \<open>All \<open>T ^ n\<close> tag sequences of length \<open>n\<close>.\<close>

definition tag_sequences :: "nat \<Rightarrow> nat \<Rightarrow> nat list list" where
  "tag_sequences T n = List.n_lists n [0..<T]"

text \<open>The parameters of the worked example: two tags.\<close>

definition example_crf :: crf where
  "example_crf =
     \<lparr>num_tags = 2, start_transitions = [1/10, -1/5], end_transitions = [3/10, 1/10],
      transitions = [[1/2, -1/2], [-1/2, 1/2]]\<rparr>"

section \<open>The recursion of the chain in general\<close>

text \<open>
  The partition engine, the forward and backward passes and the partial gold scorer run
  the same masked log-sum-exp recursion, with different weights \<open>w i u v\<close> for moving from
  tag \<open>u\<close> at position \<open>i - 1\<close> to tag \<open>v\<close> at position \<open>i\<close>. The recursion is stated once
  for arbitrary weights; each operation is shown to be an instance of it.
\<close>

definition chain_step :: "nat \<Rightarrow> (nat \<Rightarrow> nat \<Rightarrow> real) \<Rightarrow> vec \<Rightarrow> bool \<Rightarrow> vec" where
  "chain_step T w alpha m =
     map (\<lambda>v. log_sum_exp (map (\<lambda>u. alpha ! u + w u v) [0..<T]) * of_bool m
              + alpha ! v * (1 - of_bool m))
         [0..<T]"

definition chain_alpha ::
  "nat \<Rightarrow> vec \<Rightarrow> (nat \<Rightarrow> nat \<Rightarrow> nat \<Rightarrow> real) \<Rightarrow> bool list \<Rightarrow> nat \<Rightarrow> vec" where
  "chain_alpha T a0 w msk L = foldl (\<lambda>alpha i. chain_step T (w i) alpha (msk ! i)) a0 [1..<L]"

definition chain_score :: "vec \<Rightarrow> (nat \<Rightarrow> nat \<Rightarrow> nat \<Rightarrow> real) \<Rightarrow> nat list \<Rightarrow> real" where
  "chain_score a0 w s = a0 ! (s ! 0) + (\<Sum>i\<leftarrow>[1..<length s]. w i (s ! (i - 1)) (s ! i))"

text \<open>
  The tag sequences of length \<open>n\<close> as a set, and the weight of the step to position \<open>i\<close>
  in the partition engine.
\<close>

definition seqs :: "nat \<Rightarrow> nat \<Rightarrow> nat list set" where
  "seqs T n = {s. length s = n \<and> set s \<subseteq> {0..<T}}"

definition crf_weight :: "crf \<Rightarrow> mat \<Rightarrow> nat \<Rightarrow> nat \<Rightarrow> nat \<Rightarrow> real" where
  "crf_weight P em i u v = em ! i ! v + transitions P ! u ! v"


text \<open>
  The list of all intermediate vectors that \<^verbatim>\<open>_forward_algorithm\<close> collects in
  \<^verbatim>\<open>log_proba\<close>: every turn appends the step applied to the last entry.
\<close>

definition scan :: "('a \<Rightarrow> 'b \<Rightarrow> 'a) \<Rightarrow> 'a \<Rightarrow> 'b list \<Rightarrow> 'a list" where
  "scan f a xs = foldl (\<lambda>log_proba x. log_proba @ [f (last log_proba) x]) [a] xs"

text \<open>
  The weight of the step to position \<open>i\<close> in the forward pass, and the lists of vectors
  that the two directions of \<^verbatim>\<open>_forward_algorithm\<close> return for a row, in the words of the
  source.
\<close>

definition pass_weight :: "crf \<Rightarrow> mat \<Rightarrow> nat \<Rightarrow> nat \<Rightarrow> nat \<Rightarrow> real" where
  "pass_weight P em i u v = transitions P ! u ! v + em ! i ! v"

definition alpha_list :: "crf \<Rightarrow> mat \<Rightarrow> bool list \<Rightarrow> vec list" where
  "alpha_list P em msk =
     scan (\<lambda>log_proba i. alpha_step P log_proba (em ! i) (msk ! i))
          (map (\<lambda>v. em ! 0 ! v + start_transitions P ! v) [0..<num_tags P]) [1..<length em]"

definition beta_list :: "crf \<Rightarrow> mat \<Rightarrow> bool list \<Rightarrow> vec list" where
  "beta_list P em msk =
     rev (scan (\<lambda>log_proba i. beta_step P log_proba (em ! i) (msk ! i))
               (end_transitions P) (rev [1..<length em]))"

text \<open>The state of the decoder loop, score vector and history, before position \<open>n\<close>.\<close>

definition viterbi_state :: "crf \<Rightarrow> mat \<Rightarrow> bool list \<Rightarrow> nat \<Rightarrow> vec \<times> nat list list" where
  "viterbi_state P em msk n =
     foldl (\<lambda>(score, history) i.
              let (next_score, indices) = viterbi_step P score (em ! i)
              in (if msk ! i then next_score else score, history @ [indices]))
           (map (\<lambda>v. start_transitions P ! v + em ! 0 ! v) [0..<num_tags P], [])
           [1..<n]"

text \<open>
  The candidate sets of a batch have the shape of the mask, with one truth value per tag
  at every position.
\<close>

definition wf_possible :: "bool list list list \<Rightarrow> nat \<Rightarrow> nat \<Rightarrow> bool" where
  "wf_possible possible_tags B L \<longleftrightarrow>
     length possible_tags = B \<and> (\<forall>row \<in> set possible_tags. length row = L)"

text \<open>Parameters with one transition score that is exactly zero.\<close>

definition zero_transition_crf :: crf where
  "zero_transition_crf =
     \<lparr>num_tags = 2, start_transitions = [1/10, -1/5], end_transitions = [3/10, 1/10],
      transitions = [[0, -1/2], [-1/2, 1/2]]\<rparr>"

section \<open>Scores with special values\<close>

text \<open>
  The partition engine once more, over scores that may be infinite or not a number. The
  tensors of the source hold floating-point values; the exact reals cannot express the
  special values among them. Here a score is a real number or one of the special values,
  which follow the rules of IEEE 754; arithmetic on the finite scores stays exact.
\<close>

datatype float_value = Finite real | PosInf | NegInf | NaN

fun float_add :: "float_value \<Rightarrow> float_value \<Rightarrow> float_value" where
  "float_add NaN y = NaN"
| "float_add x NaN = NaN"
| "float_add PosInf NegInf = NaN"
| "float_add NegInf PosInf = NaN"
| "float_add PosInf y = PosInf"
| "float_add x PosInf = PosInf"
| "float_add NegInf y = NegInf"
| "float_add x NegInf = NegInf"
| "float_add (Finite x) (Finite y) = Finite (x + y)"

fun float_neg :: "float_value \<Rightarrow> float_value" where
  "float_neg (Finite x) = Finite (- x)"
| "float_neg PosInf = NegInf"
| "float_neg NegInf = PosInf"
| "float_neg NaN = NaN"

definition float_sub :: "float_value \<Rightarrow> float_value \<Rightarrow> float_value" where
  "float_sub x y = float_add x (float_neg y)"

fun float_mul :: "float_value \<Rightarrow> float_value \<Rightarrow> float_value" where
  "float_mul NaN y = NaN"
| "float_mul x NaN = NaN"
| "float_mul (Finite x) (Finite y) = Finite (x * y)"
| "float_mul (Finite x) PosInf = (if x = 0 then NaN else if 0 < x then PosInf else NegInf)"
| "float_mul (Finite x) NegInf = (if x = 0 then NaN else if 0 < x then NegInf else PosInf)"
| "float_mul PosInf (Finite y) = (if y = 0 then NaN else if 0 < y then PosInf else NegInf)"
| "float_mul NegInf (Finite y) = (if y = 0 then NaN else if 0 < y then NegInf else PosInf)"
| "float_mul PosInf PosInf = PosInf"
| "float_mul PosInf NegInf = NegInf"
| "float_mul NegInf PosInf = NegInf"
| "float_mul NegInf NegInf = PosInf"

fun float_exp :: "float_value \<Rightarrow> float_value" where
  "float_exp (Finite x) = Finite (exp x)"
| "float_exp PosInf = PosInf"
| "float_exp NegInf = Finite 0"
| "float_exp NaN = NaN"

fun float_log :: "float_value \<Rightarrow> float_value" where
  "float_log (Finite x) = (if 0 < x then Finite (ln x) else if x = 0 then NegInf else NaN)"
| "float_log PosInf = PosInf"
| "float_log NegInf = NaN"
| "float_log NaN = NaN"

text \<open>\<^verbatim>\<open>max\<close> of a tensor is not a number as soon as one entry is.\<close>

fun float_max :: "float_value \<Rightarrow> float_value \<Rightarrow> float_value" where
  "float_max NaN y = NaN"
| "float_max x NaN = NaN"
| "float_max PosInf y = PosInf"
| "float_max x PosInf = PosInf"
| "float_max NegInf y = y"
| "float_max x NegInf = x"
| "float_max (Finite x) (Finite y) = Finite (max x y)"

text \<open>
  Modelled from the spec: \<^verbatim>\<open>log_sum_exp\<close> as before, the maximum subtracted before
  exponentiating and added back after the logarithm, on scores with special values.
\<close>

definition log_sum_exp_ieee :: "float_value list \<Rightarrow> float_value" where
  "log_sum_exp_ieee xs =
     (let m = foldl float_max (hd xs) (tl xs)
      in float_add m
           (float_log (foldl float_add (Finite 0) (map (\<lambda>x. float_exp (float_sub x m)) xs))))"

definition forward_step_ieee ::
  "crf \<Rightarrow> float_value list \<Rightarrow> float_value list \<Rightarrow> bool \<Rightarrow> float_value list" where
  "forward_step_ieee P alpha e m =
     map (\<lambda>v. float_add
                 (float_mul
                    (log_sum_exp_ieee
                       (map (\<lambda>u. float_add (float_add (alpha ! u) (e ! v))
                                              (Finite (transitions P ! u ! v)))
                            [0..<num_tags P]))
                    (Finite (of_bool m)))
                 (float_mul (alpha ! v) (Finite (1 - of_bool m))))
         [0..<num_tags P]"

definition forward_alpha_ieee ::
  "crf \<Rightarrow> float_value list list \<Rightarrow> bool list \<Rightarrow> float_value list" where
  "forward_alpha_ieee P em msk =
     foldl (\<lambda>alpha i. forward_step_ieee P alpha (em ! i) (msk ! i))
           (map (\<lambda>v. float_add (Finite (start_transitions P ! v)) (em ! 0 ! v)) [0..<num_tags P])
           [1..<length em]"

definition denominator_score_row_ieee ::
  "crf \<Rightarrow> float_value list list \<Rightarrow> bool list \<Rightarrow> float_value option" where
  "denominator_score_row_ieee P em msk =
     (if em = [] then None
      else let alpha = forward_alpha_ieee P em msk;
               stops = map (\<lambda>v. float_add (alpha ! v) (Finite (end_transitions P ! v)))
                           [0..<num_tags P]
           in Some (log_sum_exp_ieee stops))"

definition denominator_score_ieee ::
  "crf \<Rightarrow> float_value list list list \<Rightarrow> bool list list \<Rightarrow> float_value list option" where
  "denominator_score_ieee P emissions msk =
     those (map (\<lambda>(em, m). denominator_score_row_ieee P em m) (zip emissions msk))"

section \<open>Facts about the reductions\<close>

lemma sum_list_exp_pos: "xs \<noteq> [] \<Longrightarrow> 0 < (\<Sum>x\<leftarrow>xs. exp (x - m :: real))"
  by (cases xs) (auto intro!: add_pos_nonneg sum_list_nonneg)

lemma exp_log_sum_exp:
  assumes "xs \<noteq> []"
  shows "exp (log_sum_exp xs) = (\<Sum>x\<leftarrow>xs. exp x)"
proof -
  define m where "m = Max (set xs)"
  have pos: "0 < (\<Sum>x\<leftarrow>xs. exp (x - m))"
    using assms by (rule sum_list_exp_pos)
  have "exp (log_sum_exp xs) = exp m * (\<Sum>x\<leftarrow>xs. exp (x - m))"
    using pos by (simp add: log_sum_exp_def m_def [symmetric] exp_add)
  also have "\<dots> = (\<Sum>x\<leftarrow>xs. exp m * exp (x - m))"
    by (simp add: sum_list_const_mult)
  also have "\<dots> = (\<Sum>x\<leftarrow>xs. exp x)"
    by (simp add: exp_add [symmetric])
  finally show ?thesis .
qed

lemma exp_log_sum_exp_upt:
  "0 < T \<Longrightarrow> exp (log_sum_exp (map f [0..<T])) = (\<Sum>u<T. exp (f u))"
  by (simp add: exp_log_sum_exp comp_def interv_sum_list_conv_sum_set_nat atLeast0LessThan)

lemma length_chain_step [simp]: "length (chain_step T w alpha m) = T"
  by (simp add: chain_step_def)

lemma chain_step_False: "length alpha = T \<Longrightarrow> chain_step T w alpha False = alpha"
  by (simp add: chain_step_def list_eq_iff_nth_eq)

lemma exp_chain_step_True:
  "0 < T \<Longrightarrow> v < T \<Longrightarrow>
   exp (chain_step T w alpha True ! v) = (\<Sum>u<T. exp (alpha ! u) * exp (w u v))"
  by (simp add: chain_step_def exp_log_sum_exp_upt exp_add)

lemma chain_alpha_Suc:
  "0 < n \<Longrightarrow> chain_alpha T a0 w msk (Suc n) = chain_step T (w n) (chain_alpha T a0 w msk n) (msk ! n)"
  by (simp add: chain_alpha_def)

lemma chain_alpha_1 [simp]: "chain_alpha T a0 w msk (Suc 0) = a0"
  by (simp add: chain_alpha_def)

lemma length_chain_alpha: "length a0 = T \<Longrightarrow> 0 < n \<Longrightarrow> length (chain_alpha T a0 w msk n) = T"
  by (cases n) (auto simp: chain_alpha_def gr0_conv_Suc intro: rev_induct)

lemma finite_seqs [simp]: "finite (seqs T n)"
proof -
  have "seqs T n = {s. set s \<subseteq> {0..<T} \<and> length s = n}"
    by (auto simp: seqs_def)
  then show ?thesis
    by (simp add: finite_lists_length_eq)
qed

lemma seqs_0 [simp]: "seqs T 0 = {[]}"
  by (auto simp: seqs_def)

lemma seqs_Suc: "seqs T (Suc n) = (\<lambda>(s, v). s @ [v]) ` (seqs T n \<times> {0..<T})"
proof (rule set_eqI)
  fix s
  show "s \<in> seqs T (Suc n) \<longleftrightarrow> s \<in> (\<lambda>(s, v). s @ [v]) ` (seqs T n \<times> {0..<T})"
  proof
    assume a: "s \<in> seqs T (Suc n)"
    then have "s \<noteq> []"
      by (auto simp: seqs_def)
    then obtain t v where s: "s = t @ [v]"
      by (metis rev_exhaust)
    with a have "t \<in> seqs T n" "v \<in> {0..<T}"
      by (auto simp: seqs_def)
    with s show "s \<in> (\<lambda>(s, v). s @ [v]) ` (seqs T n \<times> {0..<T})"
      by auto
  next
    assume "s \<in> (\<lambda>(s, v). s @ [v]) ` (seqs T n \<times> {0..<T})"
    then show "s \<in> seqs T (Suc n)"
      by (auto simp: seqs_def)
  qed
qed

lemma sum_seqs_Suc:
  fixes F :: "nat list \<Rightarrow> real"
  shows "(\<Sum>s\<in>seqs T (Suc n). F s) = (\<Sum>s\<in>seqs T n. \<Sum>v<T. F (s @ [v]))"
proof -
  have inj: "inj_on (\<lambda>(s, v). s @ [v]) (seqs T n \<times> {0..<T})"
    by (auto simp: inj_on_def)
  have "(\<Sum>s\<in>seqs T (Suc n). F s) = (\<Sum>p\<in>seqs T n \<times> {0..<T}. F (fst p @ [snd p]))"
    unfolding seqs_Suc by (subst sum.reindex [OF inj]) (simp add: case_prod_unfold)
  also have "\<dots> = (\<Sum>s\<in>seqs T n. \<Sum>v\<in>{0..<T}. F (s @ [v]))"
    by (simp add: sum.cartesian_product case_prod_unfold)
  finally show ?thesis
    by (simp add: atLeast0LessThan)
qed

lemma chain_score_single [simp]: "chain_score a0 w [v] = a0 ! v"
  by (simp add: chain_score_def)

lemma chain_score_snoc:
  assumes "s \<noteq> []"
  shows "chain_score a0 w (s @ [v]) = chain_score a0 w s + w (length s) (last s) v"
proof -
  from assms have len: "0 < length s"
    by simp
  have upt: "[1..<length (s @ [v])] = [1..<length s] @ [length s]"
    using len by (simp add: Suc_leI)
  have same: "(\<Sum>i\<leftarrow>[1..<length s]. w i ((s @ [v]) ! (i - 1)) ((s @ [v]) ! i)) =
              (\<Sum>i\<leftarrow>[1..<length s]. w i (s ! (i - 1)) (s ! i))"
    by (rule arg_cong [where f = sum_list], rule map_cong) (auto simp: nth_append)
  have lastv: "(s @ [v]) ! (length s - 1) = last s"
    using assms len by (simp add: nth_append last_conv_nth)
  have hd0: "(s @ [v]) ! 0 = s ! 0"
    using len by (simp add: nth_append)
  show ?thesis
    unfolding chain_score_def upt using same lastv hd0 by simp
qed

lemma exp_chain_alpha:
  assumes T: "0 < T" and a0: "length a0 = T"
    and valid: "\<forall>i. 1 \<le> i \<and> i \<le> j \<longrightarrow> msk ! i"
    and v: "v < T"
  shows "exp (chain_alpha T a0 w msk (Suc j) ! v) =
         (\<Sum>s\<in>seqs T j. exp (chain_score a0 w (s @ [v])))"
  using valid v
proof (induction j arbitrary: v)
  case 0
  then show ?case by simp
next
  case (Suc j)
  have m: "msk ! Suc j"
    using Suc.prems by simp
  have IH: "\<And>u. u < T \<Longrightarrow> exp (chain_alpha T a0 w msk (Suc j) ! u) =
                 (\<Sum>s\<in>seqs T j. exp (chain_score a0 w (s @ [u])))"
    using Suc.IH Suc.prems by simp
  have "exp (chain_alpha T a0 w msk (Suc (Suc j)) ! v) =
        (\<Sum>u<T. exp (chain_alpha T a0 w msk (Suc j) ! u) * exp (w (Suc j) u v))"
    using T Suc.prems m by (simp add: chain_alpha_Suc exp_chain_step_True)
  also have "\<dots> = (\<Sum>u<T. \<Sum>s\<in>seqs T j. exp (chain_score a0 w (s @ [u])) * exp (w (Suc j) u v))"
    by (rule sum.cong) (simp_all add: IH sum_distrib_right)
  also have "\<dots> = (\<Sum>s\<in>seqs T j. \<Sum>u<T. exp (chain_score a0 w (s @ [u])) * exp (w (Suc j) u v))"
    by (rule sum.swap)
  also have "\<dots> = (\<Sum>s\<in>seqs T j. \<Sum>u<T. exp (chain_score a0 w ((s @ [u]) @ [v])))"
  proof (rule sum.cong [OF refl], rule sum.cong [OF refl])
    fix s u
    assume "s \<in> seqs T j"
    then have "length (s @ [u]) = Suc j"
      by (simp add: seqs_def)
    then show "exp (chain_score a0 w (s @ [u])) * exp (w (Suc j) u v) =
               exp (chain_score a0 w ((s @ [u]) @ [v]))"
      by (subst chain_score_snoc [of "s @ [u]"]) (simp_all add: exp_add)
  qed
  also have "\<dots> = (\<Sum>s\<in>seqs T (Suc j). exp (chain_score a0 w (s @ [v])))"
    by (simp add: sum_seqs_Suc)
  finally show ?case .
qed

lemma chain_alpha_padding:
  assumes a0: "length a0 = T" and n: "0 < n" and nL: "n \<le> L"
    and pad: "\<forall>i. n \<le> i \<and> i < L \<longrightarrow> \<not> msk ! i"
  shows "chain_alpha T a0 w msk L = chain_alpha T a0 w msk n"
  using nL pad
proof (induction L)
  case 0
  with n show ?case by simp
next
  case (Suc L)
  show ?case
  proof (cases "n = Suc L")
    case True
    then show ?thesis by simp
  next
    case False
    with Suc.prems have le: "n \<le> L" and nm: "\<not> msk ! L"
      by auto
    with n have L: "0 < L"
      by simp
    have "chain_alpha T a0 w msk L = chain_alpha T a0 w msk n"
      using Suc.IH le Suc.prems by simp
    moreover have "length (chain_alpha T a0 w msk L) = T"
      using a0 L by (rule length_chain_alpha)
    ultimately show ?thesis
      using L nm by (simp add: chain_alpha_Suc chain_step_False)
  qed
qed

lemma sum_list_n_lists:
  fixes F :: "nat list \<Rightarrow> real"
  shows "(\<Sum>s\<leftarrow>List.n_lists n [0..<T]. F s) = (\<Sum>s\<in>seqs T n. F s)"
proof -
  have "distinct (List.n_lists n [0..<T])"
    by (simp add: distinct_n_lists)
  moreover have "set (List.n_lists n [0..<T]) = seqs T n"
    by (auto simp: set_n_lists seqs_def)
  ultimately show ?thesis
    by (simp add: sum_list_distinct_conv_sum_set)
qed


section \<open>The partition engine against enumeration\<close>


lemma prefix_mask_nth:
  assumes "prefix_mask msk n"
  shows "i < n \<Longrightarrow> msk ! i" and "n \<le> i \<Longrightarrow> i < length msk \<Longrightarrow> \<not> msk ! i"
proof -
  from assms have eq: "msk = replicate n True @ replicate (length msk - n) False"
    by (simp add: prefix_mask_def)
  show "i < n \<Longrightarrow> msk ! i"
    by (subst eq) (simp add: nth_append)
  show "n \<le> i \<Longrightarrow> i < length msk \<Longrightarrow> \<not> msk ! i"
    by (subst eq) (simp add: nth_append)
qed

lemma forward_step_chain:
  "forward_step P alpha (em ! i) m = chain_step (num_tags P) (crf_weight P em i) alpha m"
  by (simp add: forward_step_def chain_step_def crf_weight_def add.assoc)

lemma forward_alpha_chain:
  "forward_alpha P em msk =
   chain_alpha (num_tags P) (start_alpha P (em ! 0)) (crf_weight P em) msk (length em)"
  by (simp add: forward_alpha_def chain_alpha_def forward_step_chain)

lemma length_start_alpha [simp]: "length (start_alpha P e0) = num_tags P"
  by (simp add: start_alpha_def)

lemma sum_list_upt_split_first:
  fixes f :: "nat \<Rightarrow> real"
  shows "0 < n \<Longrightarrow> (\<Sum>i\<leftarrow>[0..<n]. f i) = f 0 + (\<Sum>i\<leftarrow>[1..<n]. f i)"
  by (simp add: upt_conv_Cons)

lemma sum_list_upt_shift:
  fixes g :: "nat \<Rightarrow> real"
  shows "(\<Sum>i\<leftarrow>[0..<n - 1]. g (i + 1)) = (\<Sum>i\<leftarrow>[1..<n]. g i)"
proof (cases n)
  case 0
  then show ?thesis by simp
next
  case (Suc k)
  have "(\<Sum>i\<leftarrow>[0..<k]. g (i + 1)) = (\<Sum>i\<leftarrow>map Suc [0..<k]. g i)"
    by (simp add: comp_def)
  also have "map Suc [0..<k] = [1..<Suc k]"
    by (simp add: map_Suc_upt)
  finally show ?thesis
    using Suc by simp
qed

lemma path_score_chain:
  assumes "s \<noteq> []" and "s ! 0 < num_tags P"
  shows "path_score P em s =
         chain_score (start_alpha P (em ! 0)) (crf_weight P em) s
         + end_transitions P ! (last s)"
proof -
  let ?n = "length s"
  from assms have n: "0 < ?n" by simp
  have em: "(\<Sum>i\<leftarrow>[0..<?n]. em ! i ! (s ! i)) =
            em ! 0 ! (s ! 0) + (\<Sum>i\<leftarrow>[1..<?n]. em ! i ! (s ! i))"
    using n by (rule sum_list_upt_split_first)
  have tr: "(\<Sum>i\<leftarrow>[0..<?n - 1]. transitions P ! (s ! i) ! (s ! (i + 1))) =
            (\<Sum>i\<leftarrow>[1..<?n]. transitions P ! (s ! (i - 1)) ! (s ! i))"
    using sum_list_upt_shift [of "\<lambda>i. transitions P ! (s ! (i - 1)) ! (s ! i)" ?n] by simp
  have a0: "start_alpha P (em ! 0) ! (s ! 0) = start_transitions P ! (s ! 0) + em ! 0 ! (s ! 0)"
    using assms by (simp add: start_alpha_def)
  have w: "(\<Sum>i\<leftarrow>[1..<?n]. crf_weight P em i (s ! (i - 1)) (s ! i)) =
        (\<Sum>i\<leftarrow>[1..<?n]. em ! i ! (s ! i)) + (\<Sum>i\<leftarrow>[1..<?n]. transitions P ! (s ! (i - 1)) ! (s ! i))"
    by (simp add: crf_weight_def sum_list_addf)
  have l: "last s = s ! (?n - 1)"
    using assms(1) by (rule last_conv_nth)
  show ?thesis
    unfolding path_score_def chain_score_def em tr a0 w l by simp
qed

lemma those_map_Some:
  assumes "\<forall>x \<in> set xs. f x \<noteq> None"
  shows "those (map f xs) = Some (map (\<lambda>x. the (f x)) xs)"
  using assms by (induction xs) auto

lemma exp_chain_total:
  assumes T: "0 < T" and a0: "length a0 = T" and n: "0 < n"
    and valid: "\<forall>i. 1 \<le> i \<and> i < n \<longrightarrow> msk ! i"
  shows "(\<Sum>v<T. exp (chain_alpha T a0 w msk n ! v + fin v)) =
         (\<Sum>s\<in>seqs T n. exp (chain_score a0 w s + fin (last s)))"
proof -
  from n obtain j where j: "n = Suc j"
    by (cases n) auto
  have "(\<Sum>v<T. exp (chain_alpha T a0 w msk n ! v + fin v)) =
        (\<Sum>v<T. \<Sum>s\<in>seqs T j. exp (chain_score a0 w (s @ [v]) + fin v))"
  proof (rule sum.cong [OF refl])
    fix v assume "v \<in> {..<T}"
    then have v: "v < T" by simp
    have "exp (chain_alpha T a0 w msk n ! v) = (\<Sum>s\<in>seqs T j. exp (chain_score a0 w (s @ [v])))"
      unfolding j using T a0 _ v by (rule exp_chain_alpha) (use valid j in auto)
    then show "exp (chain_alpha T a0 w msk n ! v + fin v) =
               (\<Sum>s\<in>seqs T j. exp (chain_score a0 w (s @ [v]) + fin v))"
      by (simp add: exp_add sum_distrib_right)
  qed
  also have "\<dots> = (\<Sum>s\<in>seqs T j. \<Sum>v<T. exp (chain_score a0 w (s @ [v]) + fin (last (s @ [v]))))"
    by (subst sum.swap) simp
  also have "\<dots> = (\<Sum>s\<in>seqs T n. exp (chain_score a0 w s + fin (last s)))"
    unfolding j by (rule sum_seqs_Suc [symmetric])
  finally show ?thesis .
qed

lemma denominator_score_row_sum:
  assumes P: "wf_crf P" and row: "wf_row P em msk" and pm: "prefix_mask msk n"
  shows "\<exists>logZ. denominator_score_row P em msk = Some logZ \<and>
           exp logZ = (\<Sum>s\<leftarrow>tag_sequences (num_tags P) n. exp (path_score P em s))"
proof -
  let ?T = "num_tags P"
  let ?a0 = "start_alpha P (em ! 0)"
  let ?w = "crf_weight P em"
  from P have T: "0 < ?T"
    by (simp add: wf_crf_def)
  from row have len: "length msk = length em"
    by (simp add: wf_row_def)
  from pm have n: "0 < n" "n \<le> length msk"
    by (simp_all add: prefix_mask_def)
  with len have ne: "em \<noteq> []"
    by auto
  have pad: "forward_alpha P em msk = chain_alpha ?T ?a0 ?w msk n"
    unfolding forward_alpha_chain
    by (rule chain_alpha_padding) (use n len prefix_mask_nth [OF pm] in auto)
  have "exp (log_sum_exp (map (\<lambda>v. forward_alpha P em msk ! v + end_transitions P ! v) [0..<?T])) =
        (\<Sum>v<?T. exp (chain_alpha ?T ?a0 ?w msk n ! v + end_transitions P ! v))"
    using T by (simp add: exp_log_sum_exp_upt pad)
  also have "\<dots> = (\<Sum>s\<in>seqs ?T n. exp (chain_score ?a0 ?w s + end_transitions P ! (last s)))"
    by (rule exp_chain_total) (use T n prefix_mask_nth [OF pm] in auto)
  also have "\<dots> = (\<Sum>s\<in>seqs ?T n. exp (path_score P em s))"
  proof (rule sum.cong [OF refl])
    fix s assume "s \<in> seqs ?T n"
    with n have "s \<noteq> []" "s ! 0 < ?T"
      by (auto simp: seqs_def subset_iff)
    then show "exp (chain_score ?a0 ?w s + end_transitions P ! (last s)) = exp (path_score P em s)"
      by (simp add: path_score_chain)
  qed
  finally show ?thesis
    using ne by (simp add: denominator_score_row_def tag_sequences_def sum_list_n_lists Let_def)
qed




lemma wf_batch_row:
  "wf_batch P emissions msk L \<Longrightarrow> b < length emissions \<Longrightarrow>
   wf_row P (emissions ! b) (msk ! b) \<and> length (emissions ! b) = L \<and> length (msk ! b) = L
   \<and> length msk = length emissions"
  by (simp add: wf_batch_def wf_row_def)

lemma those_rows:
  assumes "length ys = length xs" and "\<forall>b < length xs. f (xs ! b, ys ! b) \<noteq> None"
  shows "\<exists>rs. those (map f (zip xs ys)) = Some rs \<and> length rs = length xs
           \<and> (\<forall>b < length xs. f (xs ! b, ys ! b) = Some (rs ! b))"
proof -
  have "\<forall>p \<in> set (zip xs ys). f p \<noteq> None"
    using assms by (auto simp: in_set_conv_nth)
  then have "those (map f (zip xs ys)) = Some (map (\<lambda>p. the (f p)) (zip xs ys))"
    by (rule those_map_Some)
  moreover have "\<forall>b < length xs. f (xs ! b, ys ! b) = Some (map (\<lambda>p. the (f p)) (zip xs ys) ! b)"
    using assms by auto
  ultimately show ?thesis
    using assms(1) by auto
qed

text \<open>
  Claim C1. For every row \<open>b\<close> of a batch whose mask is a non-empty contiguous prefix of
  length \<open>n\<close>, the partition engine returns a value \<open>logZ\<close> for the batch, and the exponential
  of its entry for the row is the sum, over all \<open>T ^ n\<close> tag sequences of length \<open>n\<close>, of
  the exponential of the path score (start, emissions, transitions, end).
\<close>

theorem denominator_score_brute_force:
  assumes P: "wf_crf P" and batch: "wf_batch P emissions msk L"
    and b: "b < length emissions" and pm: "prefix_mask (msk ! b) n"
  shows "\<exists>logZ. denominator_score P emissions msk = Some logZ \<and>
           exp (logZ ! b) =
             (\<Sum>s\<leftarrow>tag_sequences (num_tags P) n. exp (path_score P (emissions ! b) s))"
proof -
  from wf_batch_row [OF batch b] pm have L: "0 < L"
    by (auto simp: prefix_mask_def)
  have some: "\<forall>c < length emissions. (\<lambda>(em, m). denominator_score_row P em m) (emissions ! c, msk ! c) \<noteq> None"
    using wf_batch_row [OF batch] L by (auto simp: denominator_score_row_def Let_def)
  have len: "length msk = length emissions"
    using batch by (simp add: wf_batch_def)
  from those_rows [OF len some] obtain logZ where
    Z: "denominator_score P emissions msk = Some logZ"
    and row: "denominator_score_row P (emissions ! b) (msk ! b) = Some (logZ ! b)"
    using b by (auto simp: denominator_score_def)
  from denominator_score_row_sum [OF P _ pm, of "emissions ! b"] wf_batch_row [OF batch b] row
  have "exp (logZ ! b) =
        (\<Sum>s\<leftarrow>tag_sequences (num_tags P) n. exp (path_score P (emissions ! b) s))"
    by auto
  with Z show ?thesis
    by blast
qed

text \<open>The theorem at a row of two valid positions and one padded position.\<close>

theorem denominator_score_brute_force_witness:
  "wf_crf example_crf
   \<and> wf_batch example_crf [[[1, 0], [0, 1], [1, 0]]] [[True, True, False]] 3
   \<and> prefix_mask ([[True, True, False]] ! 0) 2
   \<and> (\<exists>logZ. denominator_score example_crf [[[1, 0], [0, 1], [1, 0]]] [[True, True, False]] = Some logZ \<and>
           exp (logZ ! 0) =
             (\<Sum>s\<leftarrow>tag_sequences (num_tags example_crf) 2.
                exp (path_score example_crf ([[[1, 0], [0, 1], [1, 0]]] ! 0) s)))"
proof -
  have 1: "wf_crf example_crf"
    by (simp add: wf_crf_def example_crf_def)
  have 2: "wf_batch example_crf [[[1, 0], [0, 1], [1, 0]]] [[True, True, False]] 3"
    by (simp add: wf_batch_def wf_row_def example_crf_def)
  have 3: "(0::nat) < length [[[1, 0], [0, 1], [1::real, 0]]]"
    by simp
  have 4: "prefix_mask ([[True, True, False]] ! 0) 2"
    by (simp add: prefix_mask_def numeral_2_eq_2)
  from denominator_score_brute_force [OF 1 2 3 4] 1 2 4 show ?thesis
    by blast
qed


section \<open>The default mask\<close>

lemma ones_like_replicate:
  assumes "\<forall>t \<in> set tags. length t = L"
  shows "ones_like tags = replicate (length tags) (replicate L True)"
  using assms by (induction tags) (auto simp: ones_like_def map_replicate_const)

lemma ones_of_shape_replicate:
  assumes "\<forall>em \<in> set emissions. length em = L"
  shows "ones_of_shape emissions = replicate (length emissions) (replicate L True)"
  using assms by (cases emissions) (auto simp: ones_of_shape_def sequence_length_of_def)

text \<open>
  Claim C10. On emissions and tags of shape \<open>batch \<times> L\<close>, each of \<^verbatim>\<open>CRF.forward\<close>,
  \<^verbatim>\<open>CRF.marginal_probabilities\<close>, \<^verbatim>\<open>CRF.viterbi_decode\<close> and \<^verbatim>\<open>PartialCRF.forward\<close>
  called without a mask does exactly what it does when called with the mask of that shape
  whose entries are all one: the same returned value and, for \<^verbatim>\<open>PartialCRF.forward\<close>, the
  same effects.
\<close>

theorem default_mask_all_ones:
  assumes "\<forall>em \<in> set emissions. length em = L"
    and "length tags = length emissions"
    and "\<forall>t \<in> set tags. length t = L"
    and "ones = replicate (length emissions) (replicate L True)"
  shows "CRF_forward P emissions tags None = CRF_forward P emissions tags (Some ones)
       \<and> marginal_probabilities P emissions None = marginal_probabilities P emissions (Some ones)
       \<and> viterbi_decode P emissions None = viterbi_decode P emissions (Some ones)
       \<and> PartialCRF_forward P emissions tags None = PartialCRF_forward P emissions tags (Some ones)"
  using assms ones_like_replicate [of tags L] ones_of_shape_replicate [of emissions L]
  by (simp add: CRF_forward_def marginal_probabilities_def viterbi_decode_def PartialCRF_forward_def)

text \<open>The theorem at a batch of one row of three positions.\<close>

theorem default_mask_all_ones_witness:
  "CRF_forward example_crf [[[1, 0], [0, 1], [1, 0]]] [[0, 1, 0]] None =
     CRF_forward example_crf [[[1, 0], [0, 1], [1, 0]]] [[0, 1, 0]] (Some [[True, True, True]])
   \<and> marginal_probabilities example_crf [[[1, 0], [0, 1], [1, 0]]] None =
     marginal_probabilities example_crf [[[1, 0], [0, 1], [1, 0]]] (Some [[True, True, True]])
   \<and> viterbi_decode example_crf [[[1, 0], [0, 1], [1, 0]]] None =
     viterbi_decode example_crf [[[1, 0], [0, 1], [1, 0]]] (Some [[True, True, True]])
   \<and> PartialCRF_forward example_crf [[[1, 0], [0, 1], [1, 0]]] [[0, 1, 0]] None =
     PartialCRF_forward example_crf [[[1, 0], [0, 1], [1, 0]]] [[0, 1, 0]]
       (Some [[True, True, True]])"
proof -
  have 1: "\<forall>em \<in> set [[[1, 0], [0, 1], [1::real, 0]]]. length em = 3"
    by simp
  have 2: "length [[0, 1, 0::int]] = length [[[1, 0], [0, 1], [1::real, 0]]]"
    by simp
  have 3: "\<forall>t \<in> set [[0, 1, 0::int]]. length t = 3"
    by simp
  have 4: "[[True, True, True]] = replicate (length [[[1, 0], [0, 1], [1::real, 0]]]) (replicate 3 True)"
    by (simp add: numeral_3_eq_3)
  show ?thesis
    by (rule default_mask_all_ones [OF 1 2 3 4])
qed

section \<open>The gold scorer\<close>

lemma mask_sum_prefix: "prefix_mask msk n \<Longrightarrow> mask_sum msk = n"
proof -
  assume "prefix_mask msk n"
  then have "msk = replicate n True @ replicate (length msk - n) False"
    by (simp add: prefix_mask_def)
  then have "mask_sum msk = mask_sum (replicate n True @ replicate (length msk - n) False)"
    by simp
  then show ?thesis
    by (simp add: mask_sum_def)
qed







lemma prefix_mask_mask_sum: "prefix_mask msk n \<Longrightarrow> prefix_mask msk (mask_sum msk)"
  by (simp add: mask_sum_prefix)




section \<open>Marginals sum to one\<close>

lemma scan_Nil [simp]: "scan f a [] = [a]"
  by (simp add: scan_def)

lemma scan_snoc: "scan f a (xs @ [x]) = scan f a xs @ [f (last (scan f a xs)) x]"
  by (simp add: scan_def)

lemma length_scan [simp]: "length (scan f a xs) = Suc (length xs)"
  by (induction xs rule: rev_induct) (simp_all add: scan_snoc)

lemma scan_neq_Nil [simp]: "scan f a xs \<noteq> []"
  by (metis length_scan list.size(3) nat.distinct(1))

lemma last_scan: "last (scan f a xs) = scan f a xs ! length xs"
  by (simp add: last_conv_nth)

lemma scan_nth_0 [simp]: "scan f a xs ! 0 = a"
  by (induction xs rule: rev_induct) (simp_all add: scan_snoc nth_append)

lemma scan_nth_Suc:
  "k < length xs \<Longrightarrow> scan f a xs ! Suc k = f (scan f a xs ! k) (xs ! k)"
proof (induction xs rule: rev_induct)
  case Nil
  then show ?case by simp
next
  case (snoc x xs)
  show ?case
  proof (cases "k < length xs")
    case True
    then show ?thesis
      using snoc.IH by (simp add: scan_snoc nth_append)
  next
    case False
    with snoc.prems have "k = length xs" by simp
    then show ?thesis
      by (simp add: scan_snoc nth_append last_scan)
  qed
qed

lemma scan_take:
  "k \<le> length xs \<Longrightarrow> scan f a xs ! k = foldl f a (take k xs)"
proof (induction k)
  case 0
  then show ?case by simp
next
  case (Suc k)
  then have "take (Suc k) xs = take k xs @ [xs ! k]"
    by (simp add: take_Suc_conv_app_nth)
  with Suc show ?case
    by (simp add: scan_nth_Suc)
qed

lemma forward_algorithm_row_alpha:
  "em \<noteq> [] \<Longrightarrow> forward_algorithm_row P em msk False = Some (alpha_list P em msk)"
  by (simp add: forward_algorithm_row_def alpha_list_def scan_def)

lemma forward_algorithm_row_beta:
  "forward_algorithm_row P em msk True = Some (beta_list P em msk)"
  by (simp add: forward_algorithm_row_def beta_list_def scan_def)

lemma alpha_step_chain:
  "alpha_step P a (em ! i) m = chain_step (num_tags P) (pass_weight P em i) a m"
  by (simp add: alpha_step_def chain_step_def pass_weight_def add.assoc)

lemma beta_step_chain:
  "beta_step P b (em ! i) m = chain_step (num_tags P) (\<lambda>u v. pass_weight P em i v u) b m"
  by (simp add: beta_step_def chain_step_def pass_weight_def add.assoc)

lemma length_alpha_list [simp]: "em \<noteq> [] \<Longrightarrow> length (alpha_list P em msk) = length em"
  using length_greater_0_conv [of em] by (simp add: alpha_list_def del: upt_Suc length_greater_0_conv)

lemma length_beta_list [simp]: "em \<noteq> [] \<Longrightarrow> length (beta_list P em msk) = length em"
  using length_greater_0_conv [of em] by (simp add: beta_list_def del: upt_Suc length_greater_0_conv)

lemma alpha_list_0:
  "alpha_list P em msk ! 0 = map (\<lambda>v. em ! 0 ! v + start_transitions P ! v) [0..<num_tags P]"
  by (simp add: alpha_list_def)

lemma alpha_list_Suc:
  assumes "Suc i < length em"
  shows "alpha_list P em msk ! Suc i =
         chain_step (num_tags P) (pass_weight P em (Suc i)) (alpha_list P em msk ! i) (msk ! Suc i)"
proof -
  have "i < length [1..<length em]"
    using assms by simp
  moreover have "[1..<length em] ! i = Suc i"
    using assms by simp
  ultimately show ?thesis
    unfolding alpha_list_def by (simp add: scan_nth_Suc alpha_step_chain del: upt_Suc)
qed

lemma beta_list_last:
  assumes "em \<noteq> []"
  shows "beta_list P em msk ! (length em - Suc 0) = end_transitions P"
proof -
  let ?bs = "scan (\<lambda>log_proba i. beta_step P log_proba (em ! i) (msk ! i))
               (end_transitions P) (rev [1..<length em])"
  have len: "length ?bs = length em"
    using length_beta_list [OF assms, of P msk] by (simp add: beta_list_def)
  have "beta_list P em msk ! (length em - Suc 0) = ?bs ! (length ?bs - Suc (length em - Suc 0))"
    unfolding beta_list_def by (rule rev_nth) (use assms len in simp)
  also have "length ?bs - Suc (length em - Suc 0) = 0"
    using len assms by simp
  finally show ?thesis
    by simp
qed

lemma beta_list_step:
  assumes "Suc i < length em"
  shows "beta_list P em msk ! i =
         chain_step (num_tags P) (\<lambda>u v. pass_weight P em (Suc i) v u)
           (beta_list P em msk ! Suc i) (msk ! Suc i)"
proof -
  let ?L = "length em"
  let ?g = "\<lambda>log_proba i. beta_step P log_proba (em ! i) (msk ! i)"
  let ?bs = "scan ?g (end_transitions P) (rev [1..<?L])"
  have len: "length ?bs = ?L"
    using assms by simp
  have k: "?L - 2 - i < length (rev [1..<?L])"
    using assms by simp
  have idx: "rev [1..<?L] ! (?L - 2 - i) = Suc i"
    using assms by (simp add: rev_nth)
  have "beta_list P em msk ! i = ?bs ! (?L - 1 - i)"
    using assms len unfolding beta_list_def by (simp add: rev_nth)
  also have "?L - 1 - i = Suc (?L - 2 - i)"
    using assms by simp
  also have "?bs ! Suc (?L - 2 - i) = ?g (?bs ! (?L - 2 - i)) (Suc i)"
    using scan_nth_Suc [OF k, of ?g "end_transitions P"] idx by simp
  also have "?bs ! (?L - 2 - i) = beta_list P em msk ! Suc i"
    using assms len unfolding beta_list_def by (simp add: rev_nth Suc_diff_Suc)
  finally show ?thesis
    by (simp add: beta_step_chain)
qed

lemma length_alpha_list_nth:
  "i < length em \<Longrightarrow> length (alpha_list P em msk ! i) = num_tags P"
  by (cases i) (simp_all add: alpha_list_0 alpha_list_Suc)

lemma length_beta_list_nth:
  assumes "wf_crf P" and "i < length em"
  shows "length (beta_list P em msk ! i) = num_tags P"
proof (cases "Suc i < length em")
  case True
  then show ?thesis
    by (simp add: beta_list_step)
next
  case False
  with assms(2) have "i = length em - 1" "em \<noteq> []"
    by auto
  then show ?thesis
    using assms(1) by (simp add: beta_list_last wf_crf_def)
qed

lemma chain_step_swap:
  assumes T: "0 < T" and a: "length a = T" and b: "length b = T"
  shows "(\<Sum>v<T. exp (chain_step T w a m ! v + b ! v)) =
         (\<Sum>v<T. exp (a ! v + chain_step T (\<lambda>u v. w v u) b m ! v))"
proof (cases m)
  case False
  then show ?thesis
    using a b by (simp add: chain_step_False)
next
  case True
  have "(\<Sum>v<T. exp (chain_step T w a True ! v + b ! v)) =
        (\<Sum>v<T. \<Sum>u<T. exp (a ! u) * exp (w u v) * exp (b ! v))"
    by (rule sum.cong [OF refl]) (simp add: exp_add exp_chain_step_True T sum_distrib_right)
  also have "\<dots> = (\<Sum>u<T. \<Sum>v<T. exp (a ! u) * exp (w u v) * exp (b ! v))"
    by (rule sum.swap)
  also have "\<dots> = (\<Sum>u<T. exp (a ! u + chain_step T (\<lambda>u v. w v u) b True ! u))"
    by (rule sum.cong [OF refl])
       (simp add: exp_add exp_chain_step_True T sum_distrib_left mult_ac)
  finally show ?thesis
    using True by simp
qed

lemma alpha_beta_sum:
  assumes P: "wf_crf P" and i: "i < length em"
  shows "(\<Sum>v<num_tags P. exp (alpha_list P em msk ! i ! v + beta_list P em msk ! i ! v)) =
         (\<Sum>v<num_tags P. exp (alpha_list P em msk ! (length em - Suc 0) ! v + end_transitions P ! v))"
proof -
  let ?T = "num_tags P"
  let ?A = "alpha_list P em msk"
  let ?B = "beta_list P em msk"
  let ?S = "\<lambda>i. \<Sum>v<?T. exp (?A ! i ! v + ?B ! i ! v)"
  from P have T: "0 < ?T"
    by (simp add: wf_crf_def)
  from i have ne: "em \<noteq> []"
    by auto
  have step: "?S i = ?S (Suc i)" if "Suc i < length em" for i
  proof -
    have "?S (Suc i) = (\<Sum>v<?T. exp (chain_step ?T (pass_weight P em (Suc i)) (?A ! i) (msk ! Suc i) ! v
                                       + ?B ! Suc i ! v))"
      using that by (simp add: alpha_list_Suc)
    also have "\<dots> = (\<Sum>v<?T. exp (?A ! i ! v
                 + chain_step ?T (\<lambda>u v. pass_weight P em (Suc i) v u) (?B ! Suc i) (msk ! Suc i) ! v))"
      by (rule chain_step_swap [OF T])
         (use that in \<open>simp_all add: length_alpha_list_nth length_beta_list_nth [OF P]\<close>)
    also have "\<dots> = ?S i"
      using that by (simp add: beta_list_step)
    finally show ?thesis
      by simp
  qed
  have "?S (length em - 1 - d) = ?S (length em - 1)" if "d < length em" for d
    using that
  proof (induction d)
    case 0
    then show ?case by simp
  next
    case (Suc d)
    then have "?S (length em - 1 - Suc d) = ?S (Suc (length em - 1 - Suc d))"
      by (intro step) simp
    also have "Suc (length em - 1 - Suc d) = length em - 1 - d"
      using Suc.prems by simp
    finally show ?case
      using Suc by simp
  qed
  from this [of "length em - 1 - i"] i have "?S i = ?S (length em - 1)"
    by simp
  then show ?thesis
    using ne by (simp add: beta_list_last)
qed

lemma marginal_probabilities_row_eq:
  assumes "em \<noteq> []"
  shows "marginal_probabilities_row P em msk =
         Some (map (\<lambda>i. map (\<lambda>v. exp (alpha_list P em msk ! i ! v + beta_list P em msk ! i ! v
                     - log_sum_exp (map (\<lambda>v. alpha_list P em msk ! (length em - Suc 0) ! v
                                                + end_transitions P ! v) [0..<num_tags P])))
                               [0..<num_tags P])
                   [0..<length em])"
  using assms
  by (simp add: marginal_probabilities_row_def forward_algorithm_row_alpha
      forward_algorithm_row_beta)

lemma marginal_row_sums_to_one:
  assumes P: "wf_crf P" and i: "i < length em"
  shows "\<exists>M. marginal_probabilities_row P em msk = Some M \<and> length M = length em
           \<and> sum_list (M ! i) = 1"
proof -
  let ?T = "num_tags P"
  let ?A = "alpha_list P em msk"
  let ?B = "beta_list P em msk"
  let ?z = "log_sum_exp (map (\<lambda>v. ?A ! (length em - Suc 0) ! v + end_transitions P ! v) [0..<?T])"
  from P have T: "0 < ?T"
    by (simp add: wf_crf_def)
  from i have ne: "em \<noteq> []"
    by auto
  have z: "exp ?z = (\<Sum>v<?T. exp (?A ! (length em - Suc 0) ! v + end_transitions P ! v))"
    using T by (rule exp_log_sum_exp_upt)
  have "(\<Sum>v\<leftarrow>[0..<?T]. exp (?A ! i ! v + ?B ! i ! v - ?z)) =
        (\<Sum>v<?T. exp (?A ! i ! v + ?B ! i ! v) / exp ?z)"
    by (simp add: interv_sum_list_conv_sum_set_nat atLeast0LessThan exp_diff)
  also have "\<dots> = (\<Sum>v<?T. exp (?A ! i ! v + ?B ! i ! v)) / exp ?z"
    by (simp add: sum_divide_distrib)
  also have "\<dots> = 1"
    unfolding alpha_beta_sum [OF P i] z [symmetric] by simp
  finally have "sum_list (map (\<lambda>v. exp (?A ! i ! v + ?B ! i ! v - ?z)) [0..<?T]) = 1" .
  then show ?thesis
    using i by (simp add: marginal_probabilities_row_eq [OF ne] del: upt_Suc)
qed

lemma sequence_length_of_batch:
  "wf_batch P emissions msk L \<Longrightarrow> emissions \<noteq> [] \<Longrightarrow> sequence_length_of emissions = L"
  by (cases emissions) (auto simp: wf_batch_def sequence_length_of_def)

text \<open>
  Claim C5. For every row \<open>b\<close> of a batch and every position \<open>i\<close> below the padded length,
  the marginal probabilities that \<^verbatim>\<open>marginal_probabilities\<close> returns for the position sum
  to one over the tags. This holds whatever the mask is, so in particular at every valid
  position of a row whose mask is a non-empty contiguous prefix.
\<close>

theorem marginals_sum_to_one:
  assumes P: "wf_crf P" and batch: "wf_batch P emissions msk L"
    and b: "b < length emissions" and i: "i < L"
  shows "\<exists>M. marginal_probabilities P emissions (Some msk) = Some M
           \<and> sum_list (M ! i ! b) = 1"
proof -
  let ?f = "\<lambda>(em, m). marginal_probabilities_row P em m"
  have len: "length msk = length emissions"
    using batch by (simp add: wf_batch_def)
  have row: "\<exists>M. marginal_probabilities_row P (emissions ! c) (msk ! c) = Some M
               \<and> length M = L \<and> sum_list (M ! i) = 1"
    if c: "c < length emissions" for c
    using marginal_row_sums_to_one [OF P, of i "emissions ! c" "msk ! c"]
      wf_batch_row [OF batch c] i by auto
  have some: "\<forall>c < length emissions. ?f (emissions ! c, msk ! c) \<noteq> None"
    using row by auto
  from those_rows [OF len some] obtain rows where
    R: "those (map ?f (zip emissions msk)) = Some rows"
    and lr: "length rows = length emissions"
    and Rb: "?f (emissions ! b, msk ! b) = Some (rows ! b)"
    using b by auto
  from b have ne: "emissions \<noteq> []"
    by auto
  have sl: "sequence_length_of emissions = L"
    using batch ne by (rule sequence_length_of_batch)
  have "sum_list (rows ! b ! i) = 1"
    using row [OF b] Rb by auto
  then show ?thesis
    using R sl i b lr by (simp add: marginal_probabilities_def del: upt_Suc)
qed

text \<open>The theorem at the second position of a row of two valid positions and one padded.\<close>

theorem marginals_sum_to_one_witness:
  "\<exists>M. marginal_probabilities example_crf [[[1, 0], [0, 1], [1, 0]]] (Some [[True, True, False]])
          = Some M \<and> sum_list (M ! 1 ! 0) = 1"
proof -
  have 1: "wf_crf example_crf"
    by (simp add: wf_crf_def example_crf_def)
  have 2: "wf_batch example_crf [[[1, 0], [0, 1], [1, 0]]] [[True, True, False]] 3"
    by (simp add: wf_batch_def wf_row_def example_crf_def)
  have 3: "(0::nat) < length [[[1, 0], [0, 1], [1::real, 0]]]"
    by simp
  have 4: "(1::nat) < 3"
    by simp
  show ?thesis
    by (rule marginals_sum_to_one [OF 1 2 3 4])
qed

section \<open>Padding\<close>

lemma chain_alpha_cong:
  assumes "\<forall>i. 1 \<le> i \<and> i < n \<longrightarrow> w i = w' i \<and> msk ! i = msk' ! i"
  shows "chain_alpha T a0 w msk n = chain_alpha T a0 w' msk' n"
  unfolding chain_alpha_def by (rule foldl_cong) (use assms in auto)

lemma crf_weight_append: "i < length em \<Longrightarrow> crf_weight P (em @ extra) i = crf_weight P em i"
  by (simp add: crf_weight_def nth_append fun_eq_iff)

lemma forward_alpha_padding:
  assumes ne: "em \<noteq> []" and len: "length msk = length em"
  shows "forward_alpha P (em @ extra) (msk @ replicate (length extra) False) = forward_alpha P em msk"
proof -
  let ?T = "num_tags P"
  let ?em' = "em @ extra"
  let ?msk' = "msk @ replicate (length extra) False"
  from ne have L: "0 < length em"
    by simp
  have a0: "start_alpha P (?em' ! 0) = start_alpha P (em ! 0)"
    using L by (simp add: nth_append)
  have "forward_alpha P ?em' ?msk' =
        chain_alpha ?T (start_alpha P (em ! 0)) (crf_weight P ?em') ?msk' (length ?em')"
    by (simp only: forward_alpha_chain a0)
  also have "\<dots> = chain_alpha ?T (start_alpha P (em ! 0)) (crf_weight P ?em') ?msk' (length em)"
    by (rule chain_alpha_padding) (use L len in \<open>auto simp: nth_append\<close>)
  also have "\<dots> = chain_alpha ?T (start_alpha P (em ! 0)) (crf_weight P em) msk (length em)"
    by (rule chain_alpha_cong) (use len in \<open>auto simp: nth_append crf_weight_append\<close>)
  finally show ?thesis
    by (simp add: forward_alpha_chain)
qed

lemma denominator_score_row_padding:
  assumes "em \<noteq> []" and "length msk = length em"
  shows "denominator_score_row P (em @ extra) (msk @ replicate (length extra) False) =
         denominator_score_row P em msk"
  using assms by (simp add: denominator_score_row_def forward_alpha_padding)

lemma padded_mask_False:
  "length msk \<le> i \<Longrightarrow> i < length msk + k \<Longrightarrow> \<not> (msk @ replicate k False) ! i"
  by (simp add: nth_append)

lemma pass_weight_append: "i < length em \<Longrightarrow> pass_weight P (em @ extra) i = pass_weight P em i"
  by (simp add: pass_weight_def nth_append fun_eq_iff)

lemma alpha_list_padding:
  assumes len: "length msk = length em" and i: "i < length em"
  shows "alpha_list P (em @ extra) (msk @ replicate k False) ! i = alpha_list P em msk ! i"
  using i
proof (induction i)
  case 0
  then show ?case
    by (simp add: alpha_list_0 nth_append)
next
  case (Suc i)
  then show ?case
    using len by (simp add: alpha_list_Suc nth_append pass_weight_append)
qed

lemma alpha_list_padding_last:
  assumes ne: "em \<noteq> []" and len: "length msk = length em" and j: "j \<le> length extra"
  shows "alpha_list P (em @ extra) (msk @ replicate (length extra) False) ! (length em - Suc 0 + j) =
         alpha_list P em msk ! (length em - Suc 0)"
  using j
proof (induction j)
  case 0
  show ?case
    using alpha_list_padding [OF len, of "length em - Suc 0" P extra "length extra"] ne by simp
next
  case (Suc j)
  let ?A' = "alpha_list P (em @ extra) (msk @ replicate (length extra) False)"
  from ne have L: "0 < length em" by simp
  have idx: "length em - Suc 0 + Suc j = Suc (length em - Suc 0 + j)"
    by simp
  have lt: "Suc (length em - Suc 0 + j) < length (em @ extra)"
    using Suc.prems L unfolding length_append by linarith
  have m: "\<not> (msk @ replicate (length extra) False) ! Suc (length em - Suc 0 + j)"
    by (rule padded_mask_False) (use Suc.prems L len in linarith)+
  have lenA: "length (?A' ! (length em - Suc 0 + j)) = num_tags P"
    by (rule length_alpha_list_nth) (use lt in simp)
  have "?A' ! Suc (length em - Suc 0 + j) = ?A' ! (length em - Suc 0 + j)"
    unfolding alpha_list_Suc [OF lt] using m lenA by (simp add: chain_step_False)
  with Suc show ?case
    unfolding idx by simp
qed

lemma beta_list_padding_tail:
  assumes P: "wf_crf P" and ne: "em \<noteq> []" and len: "length msk = length em"
    and j: "j \<le> length extra"
  shows "beta_list P (em @ extra) (msk @ replicate (length extra) False)
           ! (length em - Suc 0 + (length extra - j)) = end_transitions P"
  using j
proof (induction j)
  case 0
  have "length em - Suc 0 + length extra = length (em @ extra) - Suc 0"
    using ne by (cases em) auto
  then show ?case
    using beta_list_last [of "em @ extra" P] ne by simp
next
  case (Suc j)
  let ?B' = "beta_list P (em @ extra) (msk @ replicate (length extra) False)"
  let ?i = "length em - Suc 0 + (length extra - Suc j)"
  from ne have L: "0 < length em" by simp
  have lt: "Suc ?i < length (em @ extra)"
    using Suc.prems L unfolding length_append by linarith
  have next_i: "Suc ?i = length em - Suc 0 + (length extra - j)"
    using Suc.prems by simp
  have m: "\<not> (msk @ replicate (length extra) False) ! Suc ?i"
    by (rule padded_mask_False) (use Suc.prems L len in linarith)+
  have IH: "?B' ! Suc ?i = end_transitions P"
    unfolding next_i using Suc by simp
  have "?B' ! ?i = ?B' ! Suc ?i"
    unfolding beta_list_step [OF lt] using m length_beta_list_nth [OF P lt]
    by (simp add: chain_step_False)
  with IH show ?case
    by simp
qed

lemma beta_list_padding:
  assumes P: "wf_crf P" and len: "length msk = length em" and i: "i < length em"
  shows "beta_list P (em @ extra) (msk @ replicate (length extra) False) ! i = beta_list P em msk ! i"
proof -
  let ?B' = "beta_list P (em @ extra) (msk @ replicate (length extra) False)"
  let ?B = "beta_list P em msk"
  from i have ne: "em \<noteq> []" by auto
  have "?B' ! (length em - Suc 0 - d) = ?B ! (length em - Suc 0 - d)" if "d < length em" for d
    using that
  proof (induction d)
    case 0
    show ?case
      using beta_list_padding_tail [OF P ne len, of "length extra" extra] beta_list_last [OF ne, of P msk]
      by simp
  next
    case (Suc d)
    let ?i = "length em - Suc 0 - Suc d"
    have lt: "Suc ?i < length em"
      using Suc.prems by simp
    have lt': "Suc ?i < length (em @ extra)"
      using lt by simp
    have nx: "Suc ?i = length em - Suc 0 - d"
      using Suc.prems by simp
    have IH: "?B' ! Suc ?i = ?B ! Suc ?i"
      unfolding nx using Suc by simp
    show ?case
      unfolding beta_list_step [OF lt'] beta_list_step [OF lt] IH
      using lt len by (simp add: nth_append pass_weight_append)
  qed
  from this [of "length em - Suc 0 - i"] i show ?thesis
    by simp
qed

lemma marginal_probabilities_row_padding:
  assumes P: "wf_crf P" and ne: "em \<noteq> []" and len: "length msk = length em"
  shows "\<exists>M M'. marginal_probabilities_row P em msk = Some M
           \<and> marginal_probabilities_row P (em @ extra) (msk @ replicate (length extra) False) = Some M'
           \<and> length M = length em \<and> length M' = length em + length extra
           \<and> (\<forall>i < length em. M' ! i = M ! i)"
proof -
  have ne': "em @ extra \<noteq> []"
    using ne by simp
  have last: "length (em @ extra) - Suc 0 = length em - Suc 0 + length extra"
    using ne by (cases em) auto
  show ?thesis
    unfolding marginal_probabilities_row_eq [OF ne] marginal_probabilities_row_eq [OF ne'] last
      alpha_list_padding_last [OF ne len order_refl]
    using len by (simp add: alpha_list_padding beta_list_padding [OF P] nth_append del: upt_Suc)
qed

lemma viterbi_loop_state: "viterbi_loop P em msk = viterbi_state P em msk (length em)"
  by (simp add: viterbi_loop_def viterbi_state_def)

lemma viterbi_state_1 [simp]:
  "viterbi_state P em msk (Suc 0) =
   (map (\<lambda>v. start_transitions P ! v + em ! 0 ! v) [0..<num_tags P], [])"
  by (simp add: viterbi_state_def)

lemma viterbi_state_Suc:
  "0 < n \<Longrightarrow> viterbi_state P em msk (Suc n) =
     (if msk ! n then fst (viterbi_step P (fst (viterbi_state P em msk n)) (em ! n))
      else fst (viterbi_state P em msk n),
      snd (viterbi_state P em msk n)
        @ [snd (viterbi_step P (fst (viterbi_state P em msk n)) (em ! n))])"
  by (simp add: viterbi_state_def case_prod_unfold Let_def)

lemma length_viterbi_history: "0 < n \<Longrightarrow> length (snd (viterbi_state P em msk n)) = n - Suc 0"
proof (induction n)
  case 0
  then show ?case by simp
next
  case (Suc n)
  then show ?case
    by (cases "n = 0") (simp_all add: viterbi_state_Suc)
qed

lemma viterbi_state_cong:
  assumes "em ! 0 = em' ! 0"
    and "\<forall>i. 1 \<le> i \<and> i < n \<longrightarrow> em ! i = em' ! i \<and> msk ! i = msk' ! i"
  shows "viterbi_state P em msk n = viterbi_state P em' msk' n"
  unfolding viterbi_state_def assms(1) by (rule foldl_cong) (use assms(2) in auto)

lemma viterbi_state_padding:
  assumes ne: "em \<noteq> []" and len: "length msk = length em" and j: "j \<le> length extra"
  shows "fst (viterbi_state P (em @ extra) (msk @ replicate (length extra) False) (length em + j)) =
           fst (viterbi_state P em msk (length em))
       \<and> take (length em - Suc 0)
            (snd (viterbi_state P (em @ extra) (msk @ replicate (length extra) False) (length em + j))) =
           snd (viterbi_state P em msk (length em))"
  using j
proof (induction j)
  case 0
  have "viterbi_state P (em @ extra) (msk @ replicate (length extra) False) (length em) =
        viterbi_state P em msk (length em)"
    by (rule viterbi_state_cong) (use ne len in \<open>auto simp: nth_append\<close>)
  then show ?case
    using ne by (simp add: length_viterbi_history)
next
  case (Suc j)
  from ne have L: "0 < length em" by simp
  have pos: "0 < length em + j"
    using L by simp
  have m: "\<not> (msk @ replicate (length extra) False) ! (length em + j)"
    by (rule padded_mask_False) (use Suc.prems len in linarith)+
  have hl: "length em - Suc 0 \<le>
            length (snd (viterbi_state P (em @ extra) (msk @ replicate (length extra) False) (length em + j)))"
    using pos by (simp add: length_viterbi_history)
  show ?case
    using Suc m hl by (simp add: viterbi_state_Suc [OF pos])
qed

lemma mask_sum_append_False [simp]: "mask_sum (msk @ replicate k False) = mask_sum msk"
  by (simp add: mask_sum_def)

lemma mask_sum_le: "mask_sum msk \<le> length msk"
  by (simp add: mask_sum_def)

lemma viterbi_decode_row_padding:
  assumes ne: "em \<noteq> []" and len: "length msk = length em" and n: "0 < mask_sum msk"
  shows "viterbi_decode_row P (em @ extra) (msk @ replicate (length extra) False) =
         viterbi_decode_row P em msk"
proof -
  let ?em' = "em @ extra"
  let ?msk' = "msk @ replicate (length extra) False"
  let ?k = "mask_sum msk - Suc 0"
  from viterbi_state_padding [OF ne len order_refl, where extra = extra and P = P]
  have sc: "fst (viterbi_loop P ?em' ?msk') = fst (viterbi_loop P em msk)"
    and hist: "take (length em - Suc 0) (snd (viterbi_loop P ?em' ?msk')) = snd (viterbi_loop P em msk)"
    by (simp_all add: viterbi_loop_state)
  have k: "?k \<le> length em - Suc 0"
    using mask_sum_le [of msk] len by simp
  have nat_k: "nat (int (mask_sum msk) - 1) = ?k"
    using n by simp
  have nonneg: "0 \<le> int (mask_sum msk) - 1"
    using n by simp
  have "take ?k (snd (viterbi_loop P ?em' ?msk')) =
        take ?k (take (length em - Suc 0) (snd (viterbi_loop P ?em' ?msk')))"
    using k by (simp add: min_def)
  also have "\<dots> = take ?k (snd (viterbi_loop P em msk))"
    by (simp only: hist)
  finally have sl: "py_slice_to (snd (viterbi_loop P ?em' ?msk')) (int (mask_sum msk) - 1) =
                    py_slice_to (snd (viterbi_loop P em msk)) (int (mask_sum msk) - 1)"
    using nonneg by (simp only: py_slice_to_def nat_k if_True)
  have vs: "viterbi_score P ?em' ?msk' = viterbi_score P em msk"
    by (simp add: viterbi_score_def sc)
  show ?thesis
    using ne by (simp add: viterbi_decode_row_def vs sl Let_def)
qed

lemma prefix_mask_sum_pos: "prefix_mask msk n \<Longrightarrow> 0 < mask_sum msk"
  using mask_sum_prefix [of msk n] by (simp add: prefix_mask_def)

text \<open>
  Padding by finite scores. In exact arithmetic, appending \<open>k\<close> timesteps to every row
  of a batch, with finite emission values and mask bits false, changes neither the \<open>logZ\<close>
  of \<^verbatim>\<open>_denominator_score\<close>, nor the marginals of \<^verbatim>\<open>marginal_probabilities\<close> at the
  positions of the original batch, nor the tag sequences of \<^verbatim>\<open>viterbi_decode\<close>; and all
  three calls return. The rows of the original batch have non-empty contiguous prefixes
  as masks. The partition engine and the forward and backward passes compute the masked
  step and multiply it by the mask bit, so this rests on the padded scores being finite;
  the decoder selects by the mask bit.
\<close>

theorem padding_invariance:
  assumes P: "wf_crf P" and batch: "wf_batch P emissions msk L"
    and pm: "\<forall>b < length emissions. \<exists>n. prefix_mask (msk ! b) n"
    and lx: "length extra = length emissions"
    and xk: "\<forall>b < length emissions. length (extra ! b) = k"
    and em': "emissions' = map (\<lambda>(em, x). em @ x) (zip emissions extra)"
    and msk': "msk' = map (\<lambda>m. m @ replicate k False) msk"
  shows "denominator_score P emissions' msk' = denominator_score P emissions msk
       \<and> denominator_score P emissions msk \<noteq> None
       \<and> (\<exists>M M'. marginal_probabilities P emissions (Some msk) = Some M
             \<and> marginal_probabilities P emissions' (Some msk') = Some M'
             \<and> (\<forall>i < L. M' ! i = M ! i))
       \<and> viterbi_decode P emissions' (Some msk') = viterbi_decode P emissions (Some msk)
       \<and> viterbi_decode P emissions (Some msk) \<noteq> None"
proof -
  let ?B = "length emissions"
  have len: "length msk = ?B"
    using batch by (simp add: wf_batch_def)
  have le': "length emissions' = ?B" and lm': "length msk' = ?B"
    using lx len by (simp_all add: em' msk')
  have row': "emissions' ! b = emissions ! b @ extra ! b
              \<and> msk' ! b = msk ! b @ replicate (length (extra ! b)) False"
    if "b < ?B" for b
    using that lx len xk by (simp add: em' msk')
  have ne: "emissions ! b \<noteq> []" and lrow: "length (msk ! b) = length (emissions ! b)"
    and Lrow: "length (emissions ! b) = L" and pos: "0 < mask_sum (msk ! b)"
    if b: "b < ?B" for b
  proof -
    from pm b obtain n where n: "prefix_mask (msk ! b) n"
      by blast
    show "0 < mask_sum (msk ! b)"
      using n by (rule prefix_mask_sum_pos)
    show "length (msk ! b) = length (emissions ! b)" "length (emissions ! b) = L"
      using wf_batch_row [OF batch b] by simp_all
    then show "emissions ! b \<noteq> []"
      using n by (auto simp: prefix_mask_def)
  qed
  \<comment> \<open>The partition engine.\<close>
  have den_rows: "map (\<lambda>(em, m). denominator_score_row P em m) (zip emissions' msk') =
                  map (\<lambda>(em, m). denominator_score_row P em m) (zip emissions msk)"
  proof (rule nth_equalityI)
    show "length (map (\<lambda>(em, m). denominator_score_row P em m) (zip emissions' msk')) =
          length (map (\<lambda>(em, m). denominator_score_row P em m) (zip emissions msk))"
      using le' lm' len by simp
  next
    fix b
    assume "b < length (map (\<lambda>(em, m). denominator_score_row P em m) (zip emissions' msk'))"
    then have b: "b < ?B"
      using le' lm' by simp
    show "map (\<lambda>(em, m). denominator_score_row P em m) (zip emissions' msk') ! b =
          map (\<lambda>(em, m). denominator_score_row P em m) (zip emissions msk) ! b"
      using b le' lm' len row' [OF b] denominator_score_row_padding [OF ne [OF b] lrow [OF b]]
      by simp
  qed
  have den: "denominator_score P emissions' msk' = denominator_score P emissions msk"
    by (simp add: denominator_score_def den_rows)
  have den_some: "denominator_score P emissions msk \<noteq> None"
  proof -
    have "\<forall>c < ?B. (\<lambda>(em, m). denominator_score_row P em m) (emissions ! c, msk ! c) \<noteq> None"
      using ne by (simp add: denominator_score_row_def Let_def)
    from those_rows [OF len this] show ?thesis
      by (auto simp: denominator_score_def)
  qed
  \<comment> \<open>The decoder.\<close>
  have vit_rows: "map (\<lambda>(em, m). viterbi_decode_row P em m) (zip emissions' msk') =
                  map (\<lambda>(em, m). viterbi_decode_row P em m) (zip emissions msk)"
  proof (rule nth_equalityI)
    show "length (map (\<lambda>(em, m). viterbi_decode_row P em m) (zip emissions' msk')) =
          length (map (\<lambda>(em, m). viterbi_decode_row P em m) (zip emissions msk))"
      using le' lm' len by simp
  next
    fix b
    assume "b < length (map (\<lambda>(em, m). viterbi_decode_row P em m) (zip emissions' msk'))"
    then have b: "b < ?B"
      using le' lm' by simp
    show "map (\<lambda>(em, m). viterbi_decode_row P em m) (zip emissions' msk') ! b =
          map (\<lambda>(em, m). viterbi_decode_row P em m) (zip emissions msk) ! b"
      using b le' lm' len row' [OF b]
        viterbi_decode_row_padding [OF ne [OF b] lrow [OF b] pos [OF b]]
      by simp
  qed
  have vit: "viterbi_decode P emissions' (Some msk') = viterbi_decode P emissions (Some msk)"
    by (simp add: viterbi_decode_def vit_rows)
  have vit_some: "viterbi_decode P emissions (Some msk) \<noteq> None"
  proof -
    have "\<forall>c < ?B. (\<lambda>(em, m). viterbi_decode_row P em m) (emissions ! c, msk ! c) \<noteq> None"
      using ne by (simp add: viterbi_decode_row_def Let_def)
    from those_rows [OF len this] show ?thesis
      by (auto simp: viterbi_decode_def)
  qed
  \<comment> \<open>The marginals.\<close>
  let ?f = "\<lambda>(em, m). marginal_probabilities_row P em m"
  have pad: "\<exists>M M'. ?f (emissions ! b, msk ! b) = Some M \<and> ?f (emissions' ! b, msk' ! b) = Some M'
               \<and> (\<forall>i < L. M' ! i = M ! i)"
    if b: "b < ?B" for b
    using marginal_probabilities_row_padding [OF P ne [OF b] lrow [OF b], of "extra ! b"]
      row' [OF b] Lrow [OF b] by auto
  have some: "\<forall>c < ?B. ?f (emissions ! c, msk ! c) \<noteq> None"
    using pad by fastforce
  have some': "\<forall>c < length emissions'. ?f (emissions' ! c, msk' ! c) \<noteq> None"
    using pad le' by fastforce
  from those_rows [OF len some] obtain rows where
    R: "those (map ?f (zip emissions msk)) = Some rows" and lr: "length rows = ?B"
    and Rb: "\<forall>b < ?B. ?f (emissions ! b, msk ! b) = Some (rows ! b)"
    by auto
  have lm'': "length msk' = length emissions'"
    using le' lm' by simp
  from those_rows [OF lm'' some'] obtain rows' where
    R': "those (map ?f (zip emissions' msk')) = Some rows'" and lr': "length rows' = ?B"
    and Rb': "\<forall>b < ?B. ?f (emissions' ! b, msk' ! b) = Some (rows' ! b)"
    using le' by auto
  have same: "rows' ! b ! i = rows ! b ! i" if "b < ?B" "i < L" for b i
    using pad [OF that(1)] Rb Rb' that by auto
  let ?M = "map (\<lambda>i. map (\<lambda>row. row ! i) rows) [0..<sequence_length_of emissions]"
  let ?M' = "map (\<lambda>i. map (\<lambda>row. row ! i) rows') [0..<sequence_length_of emissions']"
  have M: "marginal_probabilities P emissions (Some msk) = Some ?M"
    and M': "marginal_probabilities P emissions' (Some msk') = Some ?M'"
    by (simp_all add: marginal_probabilities_def R R')
  have "?M' ! i = ?M ! i" if i: "i < L" for i
  proof (cases "emissions = []")
    case True
    then show ?thesis
      using le' by (simp add: sequence_length_of_def)
  next
    case False
    then have sl: "sequence_length_of emissions = L"
      using batch by (intro sequence_length_of_batch)
    from False have b0: "0 < ?B"
      by simp
    have "emissions' \<noteq> []"
      using False le' by auto
    then have "sequence_length_of emissions' = length (emissions' ! 0)"
      by (cases emissions') (simp_all add: sequence_length_of_def)
    also have "\<dots> = L + k"
      using row' [OF b0] Lrow [OF b0] xk b0 by simp
    finally have sl': "sequence_length_of emissions' = L + k" .
    have "map (\<lambda>row. row ! i) rows' = map (\<lambda>row. row ! i) rows"
      by (rule nth_equalityI) (use lr lr' same i in auto)
    then show ?thesis
      using i by (simp add: sl sl' del: upt_Suc)
  qed
  with M M' have "\<exists>M M'. marginal_probabilities P emissions (Some msk) = Some M
             \<and> marginal_probabilities P emissions' (Some msk') = Some M'
             \<and> (\<forall>i < L. M' ! i = M ! i)"
    by blast
  with den den_some vit vit_some show ?thesis
    by blast
qed

text \<open>
  The theorem at a batch of two rows of lengths two and one, padded by one timestep whose
  emissions are large.
\<close>

theorem padding_invariance_witness:
  "denominator_score example_crf [[[1, 0], [0, 1], [70, -30]], [[2, 1], [4, 4], [-50, 90]]]
       [[True, True, False], [True, False, False]] =
     denominator_score example_crf [[[1, 0], [0, 1]], [[2, 1], [4, 4]]] [[True, True], [True, False]]
   \<and> denominator_score example_crf [[[1, 0], [0, 1]], [[2, 1], [4, 4]]] [[True, True], [True, False]]
       \<noteq> None
   \<and> (\<exists>M M'. marginal_probabilities example_crf [[[1, 0], [0, 1]], [[2, 1], [4, 4]]]
                  (Some [[True, True], [True, False]]) = Some M
         \<and> marginal_probabilities example_crf
              [[[1, 0], [0, 1], [70, -30]], [[2, 1], [4, 4], [-50, 90]]]
              (Some [[True, True, False], [True, False, False]]) = Some M'
         \<and> (\<forall>i < 2. M' ! i = M ! i))
   \<and> viterbi_decode example_crf [[[1, 0], [0, 1], [70, -30]], [[2, 1], [4, 4], [-50, 90]]]
       (Some [[True, True, False], [True, False, False]]) =
     viterbi_decode example_crf [[[1, 0], [0, 1]], [[2, 1], [4, 4]]]
       (Some [[True, True], [True, False]])
   \<and> viterbi_decode example_crf [[[1, 0], [0, 1]], [[2, 1], [4, 4]]]
       (Some [[True, True], [True, False]]) \<noteq> None"
proof -
  let ?E = "[[[1, 0], [0, 1]], [[2, 1], [4, 4::real]]]"
  let ?M = "[[True, True], [True, False]]"
  let ?X = "[[[70, -30]], [[-50, 90::real]]]"
  have 1: "wf_crf example_crf"
    by (simp add: wf_crf_def example_crf_def)
  have 2: "wf_batch example_crf ?E ?M 2"
    by (simp add: wf_batch_def wf_row_def example_crf_def less_Suc_eq)
  have 3: "\<forall>b < length ?E. \<exists>n. prefix_mask (?M ! b) n"
  proof (intro allI impI)
    fix b :: nat
    assume "b < length ?E"
    then have "b = 0 \<or> b = 1"
      by auto
    moreover have "prefix_mask (?M ! 0) 2" "prefix_mask (?M ! 1) 1"
      by (simp_all add: prefix_mask_def numeral_2_eq_2)
    ultimately show "\<exists>n. prefix_mask (?M ! b) n"
      by auto
  qed
  have 4: "length ?X = length ?E"
    by simp
  have 5: "\<forall>b < length ?E. length (?X ! b) = 1"
    by (simp add: less_Suc_eq)
  have 6: "[[[1, 0], [0, 1], [70, -30]], [[2, 1], [4, 4], [-50, 90::real]]] =
           map (\<lambda>(em, x). em @ x) (zip ?E ?X)"
    by simp
  have 7: "[[True, True, False], [True, False, False]] = map (\<lambda>m. m @ replicate 1 False) ?M"
    by simp
  show ?thesis
    by (rule padding_invariance [OF 1 2 3 4 5 6 7])
qed

subsection \<open>Padding by scores that are not finite\<close>

text \<open>
  On finite scores the engine over scores with special values returns what the engine
  over the reals returns: the two differ only where a score is infinite or not a number.
\<close>

lemma foldl_float_max_Finite:
  "foldl float_max (Finite x) (map Finite xs) = Finite (foldl max x xs)"
  by (induction xs arbitrary: x) simp_all

lemma foldl_max_Max: "foldl max x xs = Max (set (x # xs))"
proof (induction xs arbitrary: x)
  case Nil
  then show ?case by simp
next
  case (Cons y ys)
  have "foldl max x (y # ys) = Max (set (max x y # ys))"
    using Cons.IH [of "max x y"] by simp
  also have "\<dots> = Max (set (x # y # ys))"
    by (cases "ys = []") (simp_all add: max.assoc)
  finally show ?case .
qed

lemma foldl_float_add_Finite:
  "foldl float_add (Finite a) (map (\<lambda>x. Finite (f x)) xs) = Finite (a + (\<Sum>x\<leftarrow>xs. f x))"
  by (induction xs arbitrary: a) (simp_all add: add.assoc)

lemma log_sum_exp_ieee_Finite:
  assumes "xs \<noteq> []"
  shows "log_sum_exp_ieee (map Finite xs) = Finite (log_sum_exp xs)"
proof -
  from assms obtain y ys where xs: "xs = y # ys"
    by (cases xs) auto
  let ?m = "Max (set xs)"
  have m: "foldl float_max (hd (map Finite xs)) (tl (map Finite xs)) = Finite ?m"
    unfolding xs by (simp add: foldl_float_max_Finite foldl_max_Max)
  have "map (\<lambda>x. float_exp (float_sub x (Finite ?m))) (map Finite xs) =
        map (\<lambda>x. Finite (exp (x - ?m))) xs"
    by (simp add: float_sub_def)
  then have s: "foldl float_add (Finite 0) (map (\<lambda>x. float_exp (float_sub x (Finite ?m))) (map Finite xs)) =
        Finite (\<Sum>x\<leftarrow>xs. exp (x - ?m))"
    by (simp only: foldl_float_add_Finite) simp
  have pos: "0 < (\<Sum>x\<leftarrow>xs. exp (x - ?m))"
    using assms by (rule sum_list_exp_pos)
  show ?thesis
    unfolding log_sum_exp_ieee_def Let_def m s using pos by (simp add: log_sum_exp_def Let_def)
qed

lemma log_sum_exp_ieee_Finite_comp:
  "ys \<noteq> [] \<Longrightarrow> log_sum_exp_ieee (map (Finite \<circ> f) ys) = Finite (log_sum_exp (map f ys))"
  using log_sum_exp_ieee_Finite [of "map f ys"] by simp

lemma forward_step_ieee_Finite:
  assumes T: "0 < num_tags P" and a: "length alpha = num_tags P" and e: "length e = num_tags P"
  shows "forward_step_ieee P (map Finite alpha) (map Finite e) m =
         map Finite (forward_step P alpha e m)"
proof -
  let ?T = "num_tags P"
  have inner: "map (\<lambda>u. float_add (float_add (map Finite alpha ! u) (map Finite e ! v))
                                     (Finite (transitions P ! u ! v))) [0..<?T] =
               map Finite (map (\<lambda>u. alpha ! u + e ! v + transitions P ! u ! v) [0..<?T])"
    if "v < ?T" for v
    using that a e by simp
  have ne: "map (\<lambda>u. alpha ! u + e ! v + transitions P ! u ! v) [0..<?T] \<noteq> []" for v
    using T by simp
  show ?thesis
    unfolding forward_step_ieee_def forward_step_def
    using T by (intro nth_equalityI) (simp_all add: inner a log_sum_exp_ieee_Finite_comp)
qed

lemma length_forward_step [simp]: "length (forward_step P alpha e m) = num_tags P"
  by (simp add: forward_step_def)

lemma forward_alpha_ieee_Finite:
  assumes T: "0 < num_tags P" and ne: "em \<noteq> []" and em: "\<forall>e \<in> set em. length e = num_tags P"
  shows "forward_alpha_ieee P (map (map Finite) em) msk = map Finite (forward_alpha P em msk)"
proof -
  let ?a0 = "map (\<lambda>v. float_add (Finite (start_transitions P ! v)) (map (map Finite) em ! 0 ! v))
                 [0..<num_tags P]"
  let ?F = "\<lambda>alpha i. forward_step_ieee P alpha (map (map Finite) em ! i) (msk ! i)"
  let ?G = "\<lambda>alpha i. forward_step P alpha (em ! i) (msk ! i)"
  have e0: "length (em ! 0) = num_tags P"
    using ne em by simp
  have a0: "?a0 = map Finite (start_alpha P (em ! 0))"
    using ne e0 by (simp add: start_alpha_def)
  have "foldl ?F ?a0 [Suc 0..<k] = map Finite (foldl ?G (start_alpha P (em ! 0)) [Suc 0..<k])
        \<and> length (foldl ?G (start_alpha P (em ! 0)) [Suc 0..<k]) = num_tags P"
    if "k \<le> length em" for k
    using that
  proof (induction k)
    case 0
    then show ?case by (simp add: a0)
  next
    case (Suc k)
    show ?case
    proof (cases "k = 0")
      case True
      then show ?thesis by (simp add: a0)
    next
      case False
      then have up: "[Suc 0..<Suc k] = [Suc 0..<k] @ [k]"
        by simp
      have k: "k < length em"
        using Suc.prems by simp
      then have ek: "length (em ! k) = num_tags P"
        using em by simp
      have IH: "foldl ?F ?a0 [Suc 0..<k] = map Finite (foldl ?G (start_alpha P (em ! 0)) [Suc 0..<k])"
        "length (foldl ?G (start_alpha P (em ! 0)) [Suc 0..<k]) = num_tags P"
        using Suc by simp_all
      show ?thesis
        unfolding up foldl_append using k
        by (simp add: IH(1) forward_step_ieee_Finite [OF T IH(2) ek])
    qed
  qed
  from this [of "length em"] show ?thesis
    by (simp add: forward_alpha_ieee_def forward_alpha_def)
qed

lemma denominator_score_row_ieee_Finite:
  assumes P: "wf_crf P" and em: "\<forall>e \<in> set em. length e = num_tags P"
  shows "denominator_score_row_ieee P (map (map Finite) em) msk =
         map_option Finite (denominator_score_row P em msk)"
proof (cases "em = []")
  case True
  then show ?thesis
    by (simp add: denominator_score_row_ieee_def denominator_score_row_def)
next
  case False
  let ?T = "num_tags P"
  let ?A = "forward_alpha P em msk"
  from P have T: "0 < ?T"
    by (simp add: wf_crf_def)
  have A: "forward_alpha_ieee P (map (map Finite) em) msk = map Finite ?A"
    using T False em by (rule forward_alpha_ieee_Finite)
  have lenA: "length ?A = ?T"
    unfolding forward_alpha_chain by (rule length_chain_alpha) (use False in simp_all)
  have stops: "map (\<lambda>v. float_add (map Finite ?A ! v) (Finite (end_transitions P ! v))) [0..<?T] =
        map (Finite \<circ> (\<lambda>v. ?A ! v + end_transitions P ! v)) [0..<?T]"
    using lenA by simp
  have ne: "[0..<?T] \<noteq> []"
    using T by simp
  show ?thesis
    using False
    unfolding denominator_score_row_ieee_def denominator_score_row_def A Let_def stops
      log_sum_exp_ieee_Finite_comp [OF ne]
    by simp
qed

lemma those_map_option:
  "those (map (\<lambda>x. map_option g (f x)) xs) = map_option (map g) (those (map f xs))"
  by (induction xs) (auto split: option.splits simp: option.map_comp comp_def)

lemma denominator_score_ieee_Finite:
  assumes P: "wf_crf P" and em: "\<forall>em \<in> set emissions. \<forall>e \<in> set em. length e = num_tags P"
  shows "denominator_score_ieee P (map (map (map Finite)) emissions) msk =
         map_option (map Finite) (denominator_score P emissions msk)"
proof -
  have "map (\<lambda>(em, m). denominator_score_row_ieee P em m) (zip (map (map (map Finite)) emissions) msk) =
        map (\<lambda>p. map_option Finite ((\<lambda>(em, m). denominator_score_row P em m) p)) (zip emissions msk)"
    using em
    by (auto simp: zip_map1 denominator_score_row_ieee_Finite [OF P] dest: set_zip_leftD)
  then show ?thesis
    unfolding denominator_score_ieee_def denominator_score_def by (simp only: those_map_option)
qed

text \<open>
  Claim C7 at a padded timestep of infinite scores. For the row \<open>[1, 0]\<close> with one valid
  position the partition engine returns a finite \<open>logZ\<close>. Extended by one timestep whose
  mask bit is false and whose emissions are \<open>-\<infinity>\<close>, the masked step is still computed and
  multiplied by the mask bit zero, and the engine returns a \<open>logZ\<close> that is not a number.
\<close>

theorem padding_with_infinite_scores:
  "(\<exists>logZ. denominator_score_ieee example_crf [[[Finite 1, Finite 0]]] [[True]]
             = Some [Finite logZ])
   \<and> denominator_score_ieee example_crf [[[Finite 1, Finite 0], [NegInf, NegInf]]]
        [[True, False]] = Some [NaN]"
proof -
  have pos: "0 < 1 + exp (- (3 / 2) :: real)"
    by (simp add: add_pos_pos)
  have "denominator_score_ieee example_crf [[[Finite 1, Finite 0]]] [[True]]
        = Some [Finite (7 / 5 + ln (1 + exp (- (3 / 2))))]"
    using pos
    by (simp add: denominator_score_ieee_def denominator_score_row_ieee_def
        forward_alpha_ieee_def forward_step_ieee_def log_sum_exp_ieee_def float_sub_def
        example_crf_def Let_def upt_conv_Cons)
  moreover have "denominator_score_ieee example_crf [[[Finite 1, Finite 0], [NegInf, NegInf]]]
        [[True, False]] = Some [NaN]"
    by (simp add: denominator_score_ieee_def denominator_score_row_ieee_def
        forward_alpha_ieee_def forward_step_ieee_def log_sum_exp_ieee_def float_sub_def
        example_crf_def Let_def upt_conv_Cons)
  ultimately show ?thesis
    by blast
qed

section \<open>The decoder finds a best path\<close>

lemma length_takeWhile_lt:
  "\<exists>x \<in> set xs. \<not> Q x \<Longrightarrow> length (takeWhile Q xs) < length xs"
  by (induction xs) auto

lemma argmax_less: "xs \<noteq> [] \<Longrightarrow> argmax xs < length xs"
proof -
  assume "xs \<noteq> []"
  then have "Max (set xs) \<in> set xs"
    by (intro Max_in) simp_all
  then have "\<exists>x \<in> set xs. \<not> x \<noteq> Max (set xs)"
    by auto
  then show ?thesis
    unfolding argmax_def by (rule length_takeWhile_lt)
qed

lemma nth_argmax: "xs \<noteq> [] \<Longrightarrow> xs ! argmax xs = Max (set xs)"
  using nth_length_takeWhile [of "\<lambda>x. x \<noteq> Max (set xs)" xs] argmax_less [of xs]
  by (simp add: argmax_def)

lemma Max_map_upt_ge: "u < T \<Longrightarrow> f u \<le> Max (set (map f [0..<T]))"
  by (rule Max_ge) auto

lemma argmax_map_upt:
  assumes "0 < T"
  shows "argmax (map f [0..<T]) < T"
    and "f (argmax (map f [0..<T])) = Max (set (map f [0..<T]))"
proof -
  have ne: "map f [0..<T] \<noteq> []"
    using assms by simp
  from argmax_less [OF ne] show lt: "argmax (map f [0..<T]) < T"
    by simp
  from nth_argmax [OF ne] lt show "f (argmax (map f [0..<T])) = Max (set (map f [0..<T]))"
    by simp
qed

lemma follow_history_Nil [simp]: "follow_history [] v = [v]"
  by (simp add: follow_history_def)

lemma follow_foldl_append:
  "foldl (\<lambda>best_tags hist. best_tags @ [hist ! last best_tags]) (xs @ [c]) hs =
   xs @ foldl (\<lambda>best_tags hist. best_tags @ [hist ! last best_tags]) [c] hs"
proof (induction hs arbitrary: xs c)
  case Nil
  then show ?case by simp
next
  case (Cons h hs)
  have "foldl (\<lambda>best_tags hist. best_tags @ [hist ! last best_tags]) (xs @ [c]) (h # hs) =
        foldl (\<lambda>best_tags hist. best_tags @ [hist ! last best_tags]) ((xs @ [c]) @ [h ! c]) hs"
    by simp
  also have "\<dots> = (xs @ [c]) @ foldl (\<lambda>best_tags hist. best_tags @ [hist ! last best_tags]) [h ! c] hs"
    by (rule Cons.IH)
  also have "\<dots> = xs @ foldl (\<lambda>best_tags hist. best_tags @ [hist ! last best_tags]) ([c] @ [h ! c]) hs"
    using Cons.IH [of "[c]" "h ! c"] by simp
  finally show ?case
    by simp
qed

lemma follow_history_snoc:
  "follow_history (hists @ [indices]) v = follow_history hists (indices ! v) @ [v]"
proof -
  have "foldl (\<lambda>best_tags hist. best_tags @ [hist ! last best_tags]) [v] (indices # rev hists) =
        foldl (\<lambda>best_tags hist. best_tags @ [hist ! last best_tags]) ([v] @ [indices ! v]) (rev hists)"
    by simp
  also have "\<dots> = [v] @ foldl (\<lambda>best_tags hist. best_tags @ [hist ! last best_tags]) [indices ! v] (rev hists)"
    by (rule follow_foldl_append)
  finally show ?thesis
    by (simp add: follow_history_def)
qed

lemma viterbi_step_fst:
  "v < num_tags P \<Longrightarrow>
   fst (viterbi_step P score (em ! i)) ! v =
     Max (set (map (\<lambda>u. score ! u + crf_weight P em i u v) [0..<num_tags P]))"
  by (simp add: viterbi_step_def crf_weight_def add.assoc add.commute [of "em ! i ! v"])

lemma viterbi_step_snd:
  "v < num_tags P \<Longrightarrow>
   snd (viterbi_step P score (em ! i)) ! v =
     argmax (map (\<lambda>u. score ! u + crf_weight P em i u v) [0..<num_tags P])"
  by (simp add: viterbi_step_def crf_weight_def add.assoc add.commute [of "em ! i ! v"])

lemma length_viterbi_step [simp]: "length (fst (viterbi_step P score e)) = num_tags P"
  by (simp add: viterbi_step_def)

lemma viterbi_invariant:
  assumes T: "0 < num_tags P"
    and valid: "\<forall>i. 1 \<le> i \<and> i \<le> j \<longrightarrow> msk ! i"
  shows "length (fst (viterbi_state P em msk (Suc j))) = num_tags P
       \<and> (\<forall>v < num_tags P.
            follow_history (snd (viterbi_state P em msk (Suc j))) v \<in> seqs (num_tags P) (Suc j)
            \<and> last (follow_history (snd (viterbi_state P em msk (Suc j))) v) = v
            \<and> chain_score (start_alpha P (em ! 0)) (crf_weight P em)
                 (follow_history (snd (viterbi_state P em msk (Suc j))) v)
               = fst (viterbi_state P em msk (Suc j)) ! v)
       \<and> (\<forall>v < num_tags P. \<forall>s \<in> seqs (num_tags P) j.
            chain_score (start_alpha P (em ! 0)) (crf_weight P em) (s @ [v])
            \<le> fst (viterbi_state P em msk (Suc j)) ! v)"
  using valid
proof (induction j)
  case 0
  show ?case
    by (simp add: start_alpha_def seqs_def)
next
  case (Suc j)
  let ?T = "num_tags P"
  let ?a0 = "start_alpha P (em ! 0)"
  let ?w = "crf_weight P em"
  let ?sc = "fst (viterbi_state P em msk (Suc j))"
  let ?hist = "snd (viterbi_state P em msk (Suc j))"
  let ?cand = "\<lambda>v. map (\<lambda>u. ?sc ! u + ?w (Suc j) u v) [0..<?T]"
  let ?idx = "snd (viterbi_step P ?sc (em ! Suc j))"
  have m: "msk ! Suc j"
    using Suc.prems by simp
  have IH: "length ?sc = ?T"
    "\<And>v. v < ?T \<Longrightarrow> follow_history ?hist v \<in> seqs ?T (Suc j)"
    "\<And>v. v < ?T \<Longrightarrow> last (follow_history ?hist v) = v"
    "\<And>v. v < ?T \<Longrightarrow> chain_score ?a0 ?w (follow_history ?hist v) = ?sc ! v"
    "\<And>v s. v < ?T \<Longrightarrow> s \<in> seqs ?T j \<Longrightarrow> chain_score ?a0 ?w (s @ [v]) \<le> ?sc ! v"
    using Suc.IH Suc.prems by simp_all
  have st: "viterbi_state P em msk (Suc (Suc j)) =
            (fst (viterbi_step P ?sc (em ! Suc j)), ?hist @ [?idx])"
    using m by (simp add: viterbi_state_Suc)
  have sc': "fst (viterbi_state P em msk (Suc (Suc j))) ! v = Max (set (?cand v))"
    if "v < ?T" for v
    using that by (simp add: st viterbi_step_fst)
  have idx: "?idx ! v < ?T" "?sc ! (?idx ! v) + ?w (Suc j) (?idx ! v) v = Max (set (?cand v))"
    if "v < ?T" for v
    using argmax_map_upt [OF T, of "\<lambda>u. ?sc ! u + ?w (Suc j) u v"] that
    by (simp_all add: viterbi_step_snd)
  have path: "follow_history (snd (viterbi_state P em msk (Suc (Suc j)))) v =
              follow_history ?hist (?idx ! v) @ [v]" for v
    by (simp add: st follow_history_snoc)
  have len: "length (fst (viterbi_state P em msk (Suc (Suc j)))) = ?T"
    by (simp add: st)
  have p1: "follow_history (snd (viterbi_state P em msk (Suc (Suc j)))) v \<in> seqs ?T (Suc (Suc j))
            \<and> last (follow_history (snd (viterbi_state P em msk (Suc (Suc j)))) v) = v
            \<and> chain_score ?a0 ?w (follow_history (snd (viterbi_state P em msk (Suc (Suc j)))) v)
               = fst (viterbi_state P em msk (Suc (Suc j))) ! v"
    if v: "v < ?T" for v
  proof -
    let ?p = "follow_history ?hist (?idx ! v)"
    have p: "?p \<in> seqs ?T (Suc j)" "last ?p = ?idx ! v" "chain_score ?a0 ?w ?p = ?sc ! (?idx ! v)"
      using IH(2-4) [OF idx(1) [OF v]] by simp_all
    then have lp: "length ?p = Suc j" and nn: "?p \<noteq> []"
      by (auto simp: seqs_def)
    have "chain_score ?a0 ?w (?p @ [v]) = ?sc ! (?idx ! v) + ?w (Suc j) (?idx ! v) v"
      using chain_score_snoc [OF nn, of ?a0 ?w v] p lp by simp
    moreover have "?p @ [v] \<in> seqs ?T (Suc (Suc j))"
      using p(1) v by (auto simp: seqs_def)
    ultimately show ?thesis
      unfolding path using idx(2) [OF v] sc' [OF v] by simp
  qed
  have p2: "chain_score ?a0 ?w (s @ [v]) \<le> fst (viterbi_state P em msk (Suc (Suc j))) ! v"
    if v: "v < ?T" and s: "s \<in> seqs ?T (Suc j)" for v s
  proof -
    from s have "s \<noteq> []"
      by (auto simp: seqs_def)
    then obtain t u where tu: "s = t @ [u]"
      by (metis rev_exhaust)
    with s have t: "t \<in> seqs ?T j" and u: "u < ?T" and ls: "length s = Suc j"
      by (auto simp: seqs_def)
    have "chain_score ?a0 ?w (s @ [v]) = chain_score ?a0 ?w s + ?w (Suc j) u v"
      using chain_score_snoc [OF \<open>s \<noteq> []\<close>, of ?a0 ?w v] ls tu by simp
    also have "\<dots> \<le> ?sc ! u + ?w (Suc j) u v"
      using IH(5) [OF u t] tu by simp
    also have "\<dots> \<le> Max (set (?cand v))"
      using Max_map_upt_ge [OF u, of "\<lambda>u. ?sc ! u + ?w (Suc j) u v"] .
    finally show ?thesis
      using sc' [OF v] by simp
  qed
  from len p1 p2 show ?case
    by blast
qed

lemma viterbi_prefix:
  assumes pm: "prefix_mask msk n" and len: "length msk = length em"
  shows "fst (viterbi_loop P em msk) = fst (viterbi_state P em msk n)
       \<and> take (n - Suc 0) (snd (viterbi_loop P em msk)) = snd (viterbi_state P em msk n)"
proof -
  let ?em1 = "take n em" and ?x = "drop n em" and ?msk1 = "take n msk"
  from pm len have n: "0 < n" "n \<le> length em"
    by (simp_all add: prefix_mask_def)
  have ne: "?em1 \<noteq> []"
    using n by auto
  have l1: "length ?msk1 = length ?em1"
    using len by simp
  have ln: "length ?em1 = n"
    using n by simp
  have "msk = replicate n True @ replicate (length msk - n) False"
    using pm by (simp add: prefix_mask_def)
  then have "drop n msk = replicate (length msk - n) False"
    by (metis append_eq_conv_conj length_replicate)
  then have msk: "msk = ?msk1 @ replicate (length ?x) False"
    using len by (metis append_take_drop_id length_drop)
  have em: "em = ?em1 @ ?x"
    by simp
  have same: "viterbi_state P ?em1 ?msk1 n = viterbi_state P em msk n"
    by (rule viterbi_state_cong) (use n in auto)
  have tot: "n + length ?x = length em"
    using n by simp
  from viterbi_state_padding [OF ne l1 order_refl, where extra = ?x and P = P]
  have "fst (viterbi_state P (?em1 @ ?x) (?msk1 @ replicate (length ?x) False) (length em)) =
          fst (viterbi_state P ?em1 ?msk1 n)
      \<and> take (n - Suc 0)
           (snd (viterbi_state P (?em1 @ ?x) (?msk1 @ replicate (length ?x) False) (length em))) =
          snd (viterbi_state P ?em1 ?msk1 n)"
    unfolding ln tot .
  then show ?thesis
    unfolding viterbi_loop_state same using msk by simp
qed

lemma viterbi_decode_row_optimal:
  assumes P: "wf_crf P" and row: "wf_row P em msk" and pm: "prefix_mask msk n"
  shows "\<exists>path. viterbi_decode_row P em msk = Some path
           \<and> path \<in> seqs (num_tags P) n
           \<and> (\<forall>s \<in> seqs (num_tags P) n. path_score P em s \<le> path_score P em path)
           \<and> Max (set (viterbi_score P em msk)) = path_score P em path"
proof -
  let ?T = "num_tags P"
  let ?a0 = "start_alpha P (em ! 0)"
  let ?w = "crf_weight P em"
  let ?sc = "fst (viterbi_state P em msk n)"
  let ?hist = "snd (viterbi_state P em msk n)"
  let ?fin = "\<lambda>v. ?sc ! v + end_transitions P ! v"
  let ?best = "argmax (map ?fin [0..<?T])"
  let ?path = "follow_history ?hist ?best"
  from P have T: "0 < ?T"
    by (simp add: wf_crf_def)
  from row have len: "length msk = length em"
    by (simp add: wf_row_def)
  from pm len have n: "0 < n" "n \<le> length em"
    by (simp_all add: prefix_mask_def)
  then have ne: "em \<noteq> []"
    by auto
  from n obtain j where j: "n = Suc j"
    by (cases n) auto
  have valid: "\<forall>i. 1 \<le> i \<and> i \<le> j \<longrightarrow> msk ! i"
    using prefix_mask_nth(1) [OF pm] j by auto
  note inv = viterbi_invariant [OF T valid, of em, folded j]
  from viterbi_prefix [OF pm len, of P]
  have sc: "fst (viterbi_loop P em msk) = ?sc"
    and hist: "take (n - Suc 0) (snd (viterbi_loop P em msk)) = ?hist"
    by simp_all
  have vs: "viterbi_score P em msk = map ?fin [0..<?T]"
    by (simp add: viterbi_score_def sc)
  have sum: "mask_sum msk = n"
    using pm by (rule mask_sum_prefix)
  have slice: "py_slice_to (snd (viterbi_loop P em msk)) (int (mask_sum msk) - 1) = ?hist"
    using n hist by (simp add: py_slice_to_def sum nat_diff_distrib')
  have dec: "viterbi_decode_row P em msk = Some ?path"
    using ne by (simp add: viterbi_decode_row_def Let_def slice vs)
  have best: "?best < ?T" "?fin ?best = Max (set (map ?fin [0..<?T]))"
    using argmax_map_upt [OF T, of ?fin] by simp_all
  have pth: "?path \<in> seqs ?T n" "last ?path = ?best" "chain_score ?a0 ?w ?path = ?sc ! ?best"
    using inv best(1) by simp_all
  have score_of: "path_score P em s = chain_score ?a0 ?w s + end_transitions P ! (last s)"
    if "s \<in> seqs ?T n" for s
    by (rule path_score_chain) (use that n in \<open>auto simp: seqs_def subset_iff\<close>)
  have top: "path_score P em ?path = Max (set (map ?fin [0..<?T]))"
    using score_of [OF pth(1)] pth(2,3) best(2) by simp
  have le: "path_score P em s \<le> path_score P em ?path" if s: "s \<in> seqs ?T n" for s
  proof -
    from s n have "s \<noteq> []"
      by (auto simp: seqs_def)
    then obtain t v where tv: "s = t @ [v]"
      by (metis rev_exhaust)
    with s j have t: "t \<in> seqs ?T j" and v: "v < ?T"
      by (auto simp: seqs_def)
    have "chain_score ?a0 ?w (t @ [v]) \<le> ?sc ! v"
      using inv t v by simp
    then have "path_score P em s \<le> ?fin v"
      using score_of [OF s] tv by simp
    also have "\<dots> \<le> Max (set (map ?fin [0..<?T]))"
      using v by (rule Max_map_upt_ge)
    finally show ?thesis
      using top by simp
  qed
  from dec pth(1) le top vs show ?thesis
    by simp
qed

lemma set_tag_sequences: "set (tag_sequences T n) = seqs T n"
  by (auto simp: tag_sequences_def set_n_lists seqs_def)

text \<open>
  Claim C2. For every row \<open>b\<close> of a batch whose mask is a non-empty contiguous prefix of
  length \<open>n\<close>, \<^verbatim>\<open>viterbi_decode\<close> returns for the row a tag sequence of length exactly \<open>n\<close>
  whose path score (start, emissions, transitions, end) is maximal among all \<open>T ^ n\<close> tag
  sequences of length \<open>n\<close>; and the maximum of the final score vector of the row, end
  transitions added, is that maximal path score.
\<close>

theorem viterbi_decode_optimal:
  assumes P: "wf_crf P" and batch: "wf_batch P emissions msk L"
    and b: "b < length emissions" and pm: "prefix_mask (msk ! b) n"
  shows "\<exists>paths. viterbi_decode P emissions (Some msk) = Some paths
           \<and> length (paths ! b) = n
           \<and> paths ! b \<in> set (tag_sequences (num_tags P) n)
           \<and> (\<forall>s \<in> set (tag_sequences (num_tags P) n).
                 path_score P (emissions ! b) s \<le> path_score P (emissions ! b) (paths ! b))
           \<and> Max (set (viterbi_score P (emissions ! b) (msk ! b))) =
               path_score P (emissions ! b) (paths ! b)"
proof -
  let ?f = "\<lambda>(em, m). viterbi_decode_row P em m"
  from wf_batch_row [OF batch b] pm have L: "0 < L"
    by (auto simp: prefix_mask_def)
  have len: "length msk = length emissions"
    using batch by (simp add: wf_batch_def)
  have some: "\<forall>c < length emissions. ?f (emissions ! c, msk ! c) \<noteq> None"
    using wf_batch_row [OF batch] L by (auto simp: viterbi_decode_row_def Let_def)
  from those_rows [OF len some] obtain paths where
    V: "viterbi_decode P emissions (Some msk) = Some paths"
    and row: "viterbi_decode_row P (emissions ! b) (msk ! b) = Some (paths ! b)"
    using b by (auto simp: viterbi_decode_def)
  from viterbi_decode_row_optimal [OF P _ pm, of "emissions ! b"] wf_batch_row [OF batch b] row
  have "paths ! b \<in> seqs (num_tags P) n
      \<and> (\<forall>s \<in> seqs (num_tags P) n.
            path_score P (emissions ! b) s \<le> path_score P (emissions ! b) (paths ! b))
      \<and> Max (set (viterbi_score P (emissions ! b) (msk ! b))) =
          path_score P (emissions ! b) (paths ! b)"
    by auto
  moreover from this have "length (paths ! b) = n"
    by (simp add: seqs_def)
  ultimately show ?thesis
    using V by (auto simp: set_tag_sequences)
qed

text \<open>The theorem at the worked example: two tags, one row of three valid positions.\<close>

theorem viterbi_decode_optimal_witness:
  "\<exists>paths. viterbi_decode example_crf [[[1, 0], [0, 1], [1, 0]]] (Some [[True, True, True]])
              = Some paths
     \<and> length (paths ! 0) = 3
     \<and> paths ! 0 \<in> set (tag_sequences (num_tags example_crf) 3)
     \<and> (\<forall>s \<in> set (tag_sequences (num_tags example_crf) 3).
           path_score example_crf ([[[1, 0], [0, 1], [1, 0]]] ! 0) s
           \<le> path_score example_crf ([[[1, 0], [0, 1], [1, 0]]] ! 0) (paths ! 0))
     \<and> Max (set (viterbi_score example_crf ([[[1, 0], [0, 1], [1, 0]]] ! 0)
                   ([[True, True, True]] ! 0))) =
         path_score example_crf ([[[1, 0], [0, 1], [1, 0]]] ! 0) (paths ! 0)"
proof -
  have 1: "wf_crf example_crf"
    by (simp add: wf_crf_def example_crf_def)
  have 2: "wf_batch example_crf [[[1, 0], [0, 1], [1, 0]]] [[True, True, True]] 3"
    by (simp add: wf_batch_def wf_row_def example_crf_def)
  have 3: "(0::nat) < length [[[1, 0], [0, 1], [1::real, 0]]]"
    by simp
  have 4: "prefix_mask ([[True, True, True]] ! 0) 3"
    by (simp add: prefix_mask_def numeral_3_eq_3)
  show ?thesis
    by (rule viterbi_decode_optimal [OF 1 2 3 4])
qed

section \<open>The partial gold scorer\<close>

lemma length_concat_rect:
  "\<forall>row \<in> set xss. length row = L \<Longrightarrow> length (concat xss) = length xss * L"
  by (induction xss) auto

lemma nth_concat_rect:
  assumes "\<forall>row \<in> set xss. length row = L" and "b < length xss" and "j < L"
  shows "concat xss ! (b * L + j) = xss ! b ! j"
  using assms
proof (induction xss arbitrary: b)
  case Nil
  then show ?case by simp
next
  case (Cons xs xss)
  show ?case
  proof (cases b)
    case 0
    then show ?thesis
      using Cons.prems by (simp add: nth_append)
  next
    case (Suc c)
    then have "concat (xs # xss) ! (b * L + j) = concat xss ! (c * L + j)"
      using Cons.prems by (simp add: nth_append)
    also have "\<dots> = xss ! c ! j"
      using Cons.IH [of c] Cons.prems Suc by simp
    finally show ?thesis
      using Suc by simp
  qed
qed

lemma tensor_index_nat: "k < length xs \<Longrightarrow> tensor_index xs (int k) = Some (xs ! k)"
  by (simp add: tensor_index_def)

lemma last_possible_tags_valid:
  assumes wf: "wf_possible possible_tags B L" and b: "b < B"
    and n: "0 < mask_sum (msk ! b)" "mask_sum (msk ! b) \<le> L"
  shows "last_possible_tags possible_tags msk L b =
         Some (possible_tags ! b ! (mask_sum (msk ! b) - 1))"
proof -
  let ?n = "mask_sum (msk ! b)"
  from wf have rect: "\<forall>row \<in> set possible_tags. length row = L" and lp: "length possible_tags = B"
    by (simp_all add: wf_possible_def)
  have idx: "int ?n - 1 + int b * int L = int (b * L + (?n - 1))"
    using n by (simp add: of_nat_diff)
  have "b * L + (?n - 1) < b * L + L"
    using n by simp
  also have "\<dots> = Suc b * L"
    by simp
  also have "\<dots> \<le> B * L"
    using b by (intro mult_le_mono1) simp
  finally have lt: "b * L + (?n - 1) < length (concat possible_tags)"
    by (simp add: length_concat_rect [OF rect] lp)
  have "concat possible_tags ! (b * L + (?n - 1)) = possible_tags ! b ! (?n - 1)"
    by (rule nth_concat_rect [OF rect]) (use b lp n in simp_all)
  then show ?thesis
    unfolding last_possible_tags_def idx by (simp only: tensor_index_nat [OF lt])
qed

lemma last_possible_tags_Some:
  assumes wf: "wf_possible possible_tags B L" and b: "b < B" and L: "0 < L"
    and n: "mask_sum (msk ! b) \<le> L"
  shows "last_possible_tags possible_tags msk L b \<noteq> None"
proof -
  let ?i = "int (mask_sum (msk ! b)) - 1 + int b * int L"
  from wf have "length (concat possible_tags) = B * L"
    using length_concat_rect [of possible_tags L] by (simp add: wf_possible_def)
  then have len: "int (length (concat possible_tags)) = int B * int L"
    by simp
  have "int (Suc b) * int L \<le> int B * int L"
    using b by (intro mult_right_mono) simp_all
  then have up: "?i < int B * int L"
    using n by (simp add: algebra_simps)
  have "0 \<le> int b * int L"
    by simp
  then have lo: "- 1 \<le> ?i"
    by linarith
  have "0 < B * L"
    using b L by simp
  then have "1 \<le> int (B * L)"
    by linarith
  then have "1 \<le> int B * int L"
    by simp
  with lo have lo': "- (int B * int L) \<le> ?i"
    by linarith
  show ?thesis
    unfolding last_possible_tags_def tensor_index_def Let_def len using up lo' by auto
qed

lemma those_upt:
  assumes "\<forall>b < B. f b \<noteq> None"
  shows "\<exists>rs. those (map f [0..<B]) = Some rs \<and> length rs = B \<and> (\<forall>b < B. f b = Some (rs ! b))"
proof -
  have "\<forall>b \<in> set [0..<B]. f b \<noteq> None"
    using assms by simp
  then have "those (map f [0..<B]) = Some (map (\<lambda>b. the (f b)) [0..<B])"
    by (rule those_map_Some)
  moreover have "\<forall>b < B. f b = Some (map (\<lambda>b. the (f b)) [0..<B] ! b)"
    using assms by auto
  ultimately show ?thesis
    by auto
qed

lemma returned_partial_numerator_score:
  assumes batch: "wf_batch P emissions msk L" and b: "b < length emissions" and L: "0 < L"
  shows "returned (partial_numerator_score P emissions tags msk possible_tags) =
         those (map (\<lambda>b. partial_numerator_score_row P (emissions ! b) (msk ! b)
                            (possible_tags ! b) (last_possible_tags possible_tags msk L b))
                    [0..<length emissions])"
proof -
  from b have "emissions \<noteq> []"
    by auto
  with batch have "sequence_length_of emissions = L"
    by (rule sequence_length_of_batch)
  then show ?thesis
    using L by (simp add: partial_numerator_score_def Let_def)
qed

lemma log_sum_exp_le:
  assumes "xs \<noteq> []" and "\<forall>x \<in> set xs. x \<le> c"
  shows "log_sum_exp xs \<le> c + ln (real (length xs))"
proof -
  have n: "0 < real (length xs)"
    using assms(1) by simp
  have "exp (log_sum_exp xs) = (\<Sum>x\<leftarrow>xs. exp x)"
    using assms(1) by (rule exp_log_sum_exp)
  also have "\<dots> \<le> (\<Sum>x\<leftarrow>xs. exp c)"
    by (rule sum_list_mono) (use assms(2) in simp)
  also have "\<dots> = real (length xs) * exp c"
    by (simp add: sum_list_triv)
  also have "\<dots> = exp (c + ln (real (length xs)))"
    using n by (simp add: exp_add)
  finally show ?thesis
    by simp
qed

lemma log_sum_exp_pair_le: "a \<le> c \<Longrightarrow> b \<le> c \<Longrightarrow> log_sum_exp [a, b] \<le> c + ln 2"
  using log_sum_exp_le [of "[a, b]" c] by simp

lemma gold_zero_on_path:
  "numerator_score zero_transition_crf [[[1, 0], [1, 0]]] [[0, 0]] [[True, True]] = Some [12/5]"
  by (simp add: numerator_score_def numerator_score_row_def numerator_step_def
      index_select_def gather_def tensor_index_def mask_sum_def zero_transition_crf_def
      numeral_2_eq_2 upt_conv_Cons)

lemma partial_zero_on_path:
  "returned (partial_numerator_score zero_transition_crf [[[1, 0], [1, 0]]] [[0, 0]]
               [[True, True]] (create_possible_tag_masks (num_tags zero_transition_crf) [[0, 0]]))
   = Some [log_sum_exp
             [log_sum_exp [- (99999979 / 10), - 19999999] + 3 / 10,
              log_sum_exp [- (199999989 / 10), - 30000000] - 10000000]]"
  by (simp add: partial_numerator_score_def sequence_length_of_def Let_def
      partial_numerator_score_row_def last_possible_tags_def tensor_index_def mask_sum_def
      partial_alpha_def partial_step_def partial_start_alpha_def restricted_end_def
      restricted_emissions_def restricted_transitions_def create_possible_tag_masks_def
      zero_transition_crf_def IMPOSSIBLE_SCORE_def upt_conv_Cons)

text \<open>
  Claim C3 at a zero parameter on the gold path. Two tags, one row of two valid
  positions with gold tags \<open>0, 0\<close>, candidate sets the singletons of the gold tags, and
  the transition score from tag \<open>0\<close> to tag \<open>0\<close> exactly zero: the gold scorer returns
  \<open>12/5\<close>, the partial gold scorer returns a score below \<open>-9999990\<close>, since the transition
  of the gold path is overwritten with the sentinel.
\<close>

theorem partial_numerator_score_zero_on_gold_path:
  "numerator_score zero_transition_crf [[[1, 0], [1, 0]]] [[0, 0]] [[True, True]] = Some [12/5]
   \<and> (\<exists>p. returned (partial_numerator_score zero_transition_crf [[[1, 0], [1, 0]]] [[0, 0]]
                       [[True, True]]
                       (create_possible_tag_masks (num_tags zero_transition_crf) [[0, 0]]))
              = Some [p]
          \<and> p < - 9999990)"
proof -
  let ?c = "- (99999976 / 10) + ln 2 :: real"
  have l2: "ln (2::real) < 1"
    by (rule ln_2_less_1)
  have "log_sum_exp [- (99999979 / 10), - 19999999] \<le> - (99999979 / 10) + ln 2"
    by (rule log_sum_exp_pair_le) simp_all
  then have a: "log_sum_exp [- (99999979 / 10), - 19999999] + 3 / 10 \<le> ?c"
    by simp
  have "log_sum_exp [- (199999989 / 10), - 30000000] \<le> - (199999989 / 10) + ln 2"
    by (rule log_sum_exp_pair_le) simp_all
  then have b: "log_sum_exp [- (199999989 / 10), - 30000000] - 10000000 \<le> ?c"
    by simp
  have "log_sum_exp
          [log_sum_exp [- (99999979 / 10), - 19999999] + 3 / 10,
           log_sum_exp [- (199999989 / 10), - 30000000] - 10000000] \<le> ?c + ln 2"
    using a b by (rule log_sum_exp_pair_le)
  also have "\<dots> < - 9999990"
    using l2 by simp
  finally show ?thesis
    by (simp add: gold_zero_on_path partial_zero_on_path)
qed

section \<open>Rows without valid positions, zero parameters, effects\<close>

lemma those_map_None: "\<exists>x \<in> set xs. f x = None \<Longrightarrow> those (map f xs) = None"
  by (induction xs) (auto split: option.splits)

lemma mask_sum_all_False: "\<forall>m \<in> set msk. \<not> m \<Longrightarrow> mask_sum msk = 0"
  by (induction msk) (auto simp: mask_sum_def)

lemma numerator_score_row_zero_length:
  "mask_sum msk = 0 \<Longrightarrow> numerator_score_row P em tags msk = None"
  by (auto simp: numerator_score_row_def gather_def split: bind_splits)

lemma length_follow_history [simp]: "length (follow_history hists v) = Suc (length hists)"
  by (induction hists arbitrary: v rule: rev_induct) (simp_all add: follow_history_snoc)

lemma viterbi_decode_row_zero_length:
  assumes ne: "em \<noteq> []" and zero: "mask_sum msk = 0"
  shows "\<exists>path. viterbi_decode_row P em msk = Some path
           \<and> length path = max 1 (length em - 1)"
proof -
  have "length (snd (viterbi_loop P em msk)) = length em - Suc 0"
    using ne by (simp add: viterbi_loop_state length_viterbi_history)
  then have "length (py_slice_to (snd (viterbi_loop P em msk)) (- 1)) = length em - Suc 0 - Suc 0"
    by (simp add: py_slice_to_def)
  then show ?thesis
    using ne zero by (auto simp: viterbi_decode_row_def Let_def)
qed

lemma restricted_emissions_nth:
  "v < num_tags P \<Longrightarrow>
   restricted_emissions P e next_possible_tags ! v =
     (if next_possible_tags ! v then e ! v else IMPOSSIBLE_SCORE)"
  by (simp add: restricted_emissions_def)

lemma restricted_transitions_nth:
  "u < num_tags P \<Longrightarrow> v < num_tags P \<Longrightarrow>
   restricted_transitions P current_possible_tags next_possible_tags ! u ! v =
     (if current_possible_tags ! u \<and> next_possible_tags ! v \<and> transitions P ! u ! v \<noteq> 0
      then transitions P ! u ! v else IMPOSSIBLE_SCORE)"
  by (simp add: restricted_transitions_def Let_def)

text \<open>
  Claim C4 at a zero parameter. With every tag allowed at both positions, the restricted
  transition array of the partial gold scorer holds the sentinel at an entry whose
  transition parameter is zero: the entry is not the original parameter value although
  neither of its tags is disallowed.
\<close>

theorem restricted_transitions_zero_parameter:
  "restricted_transitions zero_transition_crf [True, True] [True, True] ! 0 ! 0 = IMPOSSIBLE_SCORE
   \<and> transitions zero_transition_crf ! 0 ! 0 = 0
   \<and> IMPOSSIBLE_SCORE \<noteq> 0"
  by (simp add: restricted_transitions_def zero_transition_crf_def IMPOSSIBLE_SCORE_def
      upt_conv_Cons)

text \<open>
  Claim C8 at a row without valid positions: the decoder returns a path of two tags for
  the row, and reports nothing.
\<close>

theorem zero_length_row_counterexample:
  "viterbi_decode example_crf [[[1, 0], [0, 1], [1, 0]]] (Some [[False, False, False]])
   = Some [[0, 0]]"
  by (simp add: viterbi_decode_def viterbi_decode_row_def viterbi_score_def viterbi_loop_def
      viterbi_step_def follow_history_def py_slice_to_def mask_sum_def argmax_def
      example_crf_def Let_def upt_conv_Cons)

text \<open>
  Claim C8, as amended. In a batch of positive padded length with a row \<open>b\<close> whose mask
  is entirely false, the gold scorer reports an error: the lookup of the last tag at
  index \<open>-1\<close> is rejected. The partial gold scorer and the decoder report no error: both
  return, and the decoder returns for the row a path of \<open>max 1 (L - 1)\<close> tags.
\<close>

theorem zero_length_row:
  assumes batch: "wf_batch P emissions msk L" and tl: "length tags = length emissions"
    and wfp: "wf_possible possible_tags (length emissions) L"
    and L: "0 < L" and b: "b < length emissions"
    and zero: "\<forall>m \<in> set (msk ! b). \<not> m"
  shows "numerator_score P emissions tags msk = None
       \<and> (\<exists>ps. returned (partial_numerator_score P emissions tags msk possible_tags) = Some ps)
       \<and> (\<exists>paths. viterbi_decode P emissions (Some msk) = Some paths
             \<and> length (paths ! b) = max 1 (L - 1))"
proof -
  let ?B = "length emissions"
  have len: "length msk = ?B"
    using batch by (simp add: wf_batch_def)
  have ms: "mask_sum (msk ! b) = 0"
    using zero by (rule mask_sum_all_False)
  have ne: "emissions ! c \<noteq> []" if "c < ?B" for c
    using wf_batch_row [OF batch that] L by auto
  \<comment> \<open>The gold scorer.\<close>
  have "(emissions ! b, tags ! b, msk ! b) \<in> set (zip emissions (zip tags msk))"
    using b tl len by (auto simp: in_set_conv_nth intro!: exI [of _ b])
  moreover have "numerator_score_row P (emissions ! b) (tags ! b) (msk ! b) = None"
    using ms by (rule numerator_score_row_zero_length)
  ultimately have gold: "numerator_score P emissions tags msk = None"
    unfolding numerator_score_def by (intro those_map_None) force
  \<comment> \<open>The partial gold scorer.\<close>
  let ?row = "\<lambda>c. partial_numerator_score_row P (emissions ! c) (msk ! c) (possible_tags ! c)
                     (last_possible_tags possible_tags msk L c)"
  have "?row c \<noteq> None" if c: "c < ?B" for c
  proof -
    have "mask_sum (msk ! c) \<le> L"
      using mask_sum_le [of "msk ! c"] wf_batch_row [OF batch c] by simp
    from last_possible_tags_Some [OF wfp c L this] ne [OF c] show ?thesis
      by (auto simp: partial_numerator_score_row_def)
  qed
  then have "\<forall>c < ?B. ?row c \<noteq> None"
    by simp
  from those_upt [OF this] returned_partial_numerator_score [OF batch b L]
  have part: "\<exists>ps. returned (partial_numerator_score P emissions tags msk possible_tags) = Some ps"
    by auto
  \<comment> \<open>The decoder.\<close>
  let ?f = "\<lambda>(em, m). viterbi_decode_row P em m"
  have "\<forall>c < ?B. ?f (emissions ! c, msk ! c) \<noteq> None"
    using ne by (simp add: viterbi_decode_row_def Let_def)
  from those_rows [OF len this] obtain paths where
    V: "viterbi_decode P emissions (Some msk) = Some paths"
    and Vb: "viterbi_decode_row P (emissions ! b) (msk ! b) = Some (paths ! b)"
    using b by (auto simp: viterbi_decode_def)
  from viterbi_decode_row_zero_length [OF ne [OF b] ms, of P] Vb wf_batch_row [OF batch b]
  have "length (paths ! b) = max 1 (L - 1)"
    by auto
  with gold part V show ?thesis
    by blast
qed

text \<open>The theorem at a batch of two rows, the second without valid positions.\<close>

theorem zero_length_row_witness:
  "numerator_score example_crf [[[1, 0], [0, 1], [1, 0]], [[2, 2], [0, 0], [1, 1]]]
     [[0, 1, 0], [1, 1, 1]] [[True, True, True], [False, False, False]] = None
   \<and> (\<exists>ps. returned (partial_numerator_score example_crf
                        [[[1, 0], [0, 1], [1, 0]], [[2, 2], [0, 0], [1, 1]]]
                        [[0, 1, 0], [1, 1, 1]] [[True, True, True], [False, False, False]]
                        [[[True, False], [False, True], [True, False]],
                         [[False, True], [False, True], [False, True]]]) = Some ps)
   \<and> (\<exists>paths. viterbi_decode example_crf [[[1, 0], [0, 1], [1, 0]], [[2, 2], [0, 0], [1, 1]]]
                   (Some [[True, True, True], [False, False, False]]) = Some paths
         \<and> length (paths ! 1) = max 1 (3 - 1))"
proof -
  let ?E = "[[[1, 0], [0, 1], [1, 0]], [[2, 2], [0, 0], [1, 1::real]]]"
  let ?M = "[[True, True, True], [False, False, False]]"
  let ?G = "[[0, 1, 0], [1, 1, 1::int]]"
  let ?C = "[[[True, False], [False, True], [True, False]],
             [[False, True], [False, True], [False, True]]]"
  have 1: "wf_batch example_crf ?E ?M 3"
    by (simp add: wf_batch_def wf_row_def example_crf_def less_Suc_eq)
  have 2: "length ?G = length ?E"
    by simp
  have 3: "wf_possible ?C (length ?E) 3"
    by (simp add: wf_possible_def)
  have 4: "(0::nat) < 3"
    by simp
  have 5: "(1::nat) < length ?E"
    by simp
  have 6: "\<forall>m \<in> set (?M ! 1). \<not> m"
    by simp
  show ?thesis
    by (rule zero_length_row [OF 1 2 3 4 5 6])
qed

text \<open>
  Claim C9 at a batch of one row. \<^verbatim>\<open>PartialCRF.forward\<close> writes the start vector of the
  partial gold scorer to standard output, and it leaves the emissions of the caller
  overwritten with the sentinel at the disallowed tags of every position after the first.
\<close>

theorem partial_forward_effects:
  "printed (PartialCRF_forward example_crf [[[1, 0], [0, 1], [1, 0]]] [[0, 1, 0]] None)
     = [[[11/10, - 10000000]]]
   \<and> emissions_after (PartialCRF_forward example_crf [[[1, 0], [0, 1], [1, 0]]] [[0, 1, 0]] None)
     = [[[1, 0], [- 10000000, 1], [1, - 10000000]]]"
  by (simp add: PartialCRF_forward_def partial_numerator_score_def Let_def
      create_possible_tag_masks_def ones_like_def sequence_length_of_def shares_storage_def
      overwrite_emissions_def restricted_emissions_def partial_start_alpha_def
      example_crf_def IMPOSSIBLE_SCORE_def upt_conv_Cons)

end
